theory Spec2Isabelle
  imports Complex_Main "HOL-Library.Sublist"
begin

section \<open>Flappy Bird evaluation harness: data model\<close>

text \<open>
  The embedding follows \<^verbatim>\<open>flappy_bird_ai.py\<close>. Positions computed by the bird's
  kinematics and the genomes' fitness values are Python floats; they are modelled in exact
  arithmetic (\<^typ>\<open>real\<close>). Pixel coordinates of pipes and of the base are Python ints.
\<close>

datatype error = IndexError

text \<open>Class \<^verbatim>\<open>Bird\<close>. The field \<open>img\<close> is the index into \<^verbatim>\<open>IMGS\<close> of the current sprite.\<close>

record bird =
  bird_x :: int
  bird_y :: real
  tilt :: int
  tick_count :: int
  velocity :: real
  bird_height :: real
  img_count :: int
  img :: nat

definition MAX_ROTATION :: int where "MAX_ROTATION = 25"
definition ROTATION_VELOCITY :: int where "ROTATION_VELOCITY = 20"
definition ANIMATION_TIME :: int where "ANIMATION_TIME = 5"

text \<open>\<^verbatim>\<open>Bird.__init__(x, y)\<close>\<close>

definition Bird :: "int \<Rightarrow> real \<Rightarrow> bird" where
  "Bird x y = \<lparr>bird_x = x, bird_y = y, tilt = 0, tick_count = 0, velocity = 0,
               bird_height = y, img_count = 0, img = 0\<rparr>"

text \<open>\<^verbatim>\<open>Bird.jump\<close>\<close>

definition jump :: "bird \<Rightarrow> bird" where
  "jump b = b\<lparr>velocity := -10.5, tick_count := 0, bird_height := bird_y b\<rparr>"

text \<open>
  The displacement computed by \<^verbatim>\<open>Bird.move\<close> from the velocity and the incremented
  tick count: the kinematic formula, then the two \<^verbatim>\<open>if\<close> statements in the source's order.
\<close>

definition displacement :: "real \<Rightarrow> int \<Rightarrow> real" where
  "displacement v t =
     (let d = v * real_of_int t + 1.5 * (real_of_int t)\<^sup>2;
          d = (if d \<ge> 16 then 16 else d);
          d = (if d < 0 then d - 2 else d)
      in d)"

text \<open>\<^verbatim>\<open>Bird.move\<close>\<close>

definition bird_move :: "bird \<Rightarrow> bird" where
  "bird_move b =
     (let t = tick_count b + 1;
          d = displacement (velocity b) t;
          y' = bird_y b + d;
          tilt' = (if d < 0 \<or> y' < bird_height b + 50
                   then (if tilt b < MAX_ROTATION then MAX_ROTATION else tilt b)
                   else (if tilt b > -90 then tilt b - ROTATION_VELOCITY else tilt b))
      in b\<lparr>tick_count := t, bird_y := y', tilt := tilt'\<rparr>)"

text \<open>
  \<^verbatim>\<open>Bird.draw\<close>, restricted to its effect on the bird: the animation counter and the
  selected sprite. The chain of \<^verbatim>\<open>elif\<close> has no final \<^verbatim>\<open>else\<close>.
\<close>

definition bird_draw :: "bird \<Rightarrow> bird" where
  "bird_draw b =
     (let c = img_count b + 1;
          b1 = b\<lparr>img_count := c\<rparr>;
          b2 = (if c < ANIMATION_TIME then b1\<lparr>img := 0\<rparr>
                else if c < ANIMATION_TIME * 2 then b1\<lparr>img := 1\<rparr>
                else if c < ANIMATION_TIME * 3 then b1\<lparr>img := 2\<rparr>
                else if c < ANIMATION_TIME * 4 then b1\<lparr>img := 1\<rparr>
                else if c < ANIMATION_TIME * 4 + 1 then b1\<lparr>img := 0, img_count := 0\<rparr>
                else b1)
      in if tilt b2 \<le> -80 then b2\<lparr>img := 1, img_count := ANIMATION_TIME * 2\<rparr> else b2)"

text \<open>Class \<^verbatim>\<open>Base\<close>; \<open>W\<close> stands for \<^verbatim>\<open>BASE_IMG.get_width()\<close>, an asset constant.\<close>

record base =
  base_y :: int
  base_x1 :: int
  base_x2 :: int

definition WIN_WIDTH :: int where "WIN_WIDTH = 500"
definition VELOCITY :: int where "VELOCITY = 5"

definition Base :: "int \<Rightarrow> int \<Rightarrow> base" where
  "Base W y = \<lparr>base_y = y, base_x1 = 0, base_x2 = W\<rparr>"

definition base_move :: "int \<Rightarrow> base \<Rightarrow> base" where
  "base_move W g =
     (let x1 = base_x1 g - VELOCITY;
          x2 = base_x2 g - VELOCITY;
          x1 = (if x1 + W < 0 then x2 + W else x1);
          x2 = (if x2 + W < 0 then x1 + W else x2)
      in g\<lparr>base_x1 := x1, base_x2 := x2\<rparr>)"

text \<open>A point \<open>p\<close> of the screen line lies under one of the two tiles.\<close>

definition covered :: "int \<Rightarrow> base \<Rightarrow> real \<Rightarrow> bool" where
  "covered W g p \<longleftrightarrow>
     (real_of_int (base_x1 g) \<le> p \<and> p \<le> real_of_int (base_x1 g + W)) \<or>
     (real_of_int (base_x2 g) \<le> p \<and> p \<le> real_of_int (base_x2 g + W))"

section \<open>Obstacles and collision\<close>

text \<open>
  Everything the source takes from the image assets and from the outside world. The sprite
  sizes and pixel masks are not part of the program text, so they are parameters:
  \<open>PIPE_WIDTH\<close> and \<open>PIPE_HEIGHT\<close> stand for \<^verbatim>\<open>PIPE_TOP.get_width()\<close> and
  \<^verbatim>\<open>PIPE_TOP.get_height()\<close>, \<open>BASE_WIDTH\<close> for \<^verbatim>\<open>BASE_IMG.get_width()\<close>, \<open>IMG_HEIGHT i\<close>
  for \<^verbatim>\<open>IMGS[i].get_height()\<close>; \<open>overlap_top i off\<close> tells whether the mask of bird sprite
  \<open>i\<close> overlaps the mask of the top pipe at offset \<open>off\<close> (the result of
  \<^verbatim>\<open>bird_mask.overlap(top_mask, off)\<close> is not \<^verbatim>\<open>None\<close>), and \<open>overlap_bottom\<close> likewise.
  \<open>randrange k\<close> is the value returned by the \<open>k\<close>-th call of \<^verbatim>\<open>random.randrange(50, 450)\<close>,
  and \<open>quit_event k\<close> tells whether the events polled at the top of tick \<open>k\<close> contain
  \<^verbatim>\<open>pygame.QUIT\<close>.
\<close>

record env =
  PIPE_WIDTH :: int
  PIPE_HEIGHT :: int
  BASE_WIDTH :: int
  IMG_HEIGHT :: "nat \<Rightarrow> int"
  overlap_top :: "nat \<Rightarrow> int \<times> int \<Rightarrow> bool"
  overlap_bottom :: "nat \<Rightarrow> int \<times> int \<Rightarrow> bool"
  randrange :: "nat \<Rightarrow> int"
  quit_event :: "nat \<Rightarrow> bool"

text \<open>Class \<^verbatim>\<open>Pipe\<close>\<close>

record pipe =
  pipe_x :: int
  pipe_height :: int
  pipe_top :: int
  pipe_bottom :: int
  passed :: bool

definition GAP :: int where "GAP = 200"

text \<open>\<^verbatim>\<open>Pipe.__init__(x)\<close> with \<^verbatim>\<open>set_height\<close>; \<open>h\<close> is the random height drawn there.\<close>

definition Pipe :: "env \<Rightarrow> int \<Rightarrow> int \<Rightarrow> pipe" where
  "Pipe E x h = \<lparr>pipe_x = x, pipe_height = h, pipe_top = h - PIPE_HEIGHT E,
                 pipe_bottom = h + GAP, passed = False\<rparr>"

definition pipe_move :: "pipe \<Rightarrow> pipe" where
  "pipe_move p = p\<lparr>pipe_x := pipe_x p - VELOCITY\<rparr>"

text \<open>Python's \<^verbatim>\<open>round\<close> on a float: to the nearest integer, ties to the even one.\<close>

definition py_round :: "real \<Rightarrow> int" where
  "py_round r =
     (let f = \<lfloor>r\<rfloor>; d = r - real_of_int f
      in if d < 1/2 then f else if d > 1/2 then f + 1 else if even f then f else f + 1)"

text \<open>\<^verbatim>\<open>Pipe.collide\<close>\<close>

definition collide :: "env \<Rightarrow> pipe \<Rightarrow> bird \<Rightarrow> bool" where
  "collide E p b =
     (let top_offset = (pipe_x p - bird_x b, pipe_top p - py_round (bird_y b));
          bottom_offset = (pipe_x p - bird_x b, pipe_bottom p - py_round (bird_y b));
          b_point = overlap_bottom E (img b) bottom_offset;
          t_point = overlap_top E (img b) top_offset
      in if t_point \<or> b_point then True else False)"

section \<open>Evaluation harness\<close>

text \<open>
  A controller maps the observation triple to its list of outputs
  (\<^verbatim>\<open>net.activate\<close>). Genomes are objects shared with the caller: \<open>ge\<close> holds references
  (indices into the caller's genome list) and \<open>fitness\<close> is the store of their
  \<^verbatim>\<open>fitness\<close> attributes, which outlives the removal of a reference from \<open>ge\<close>.
\<close>

type_synonym observation = "real \<times> real \<times> real"
type_synonym net = "observation \<Rightarrow> real list"

record population =
  birds :: "bird list"
  nets :: "net list"
  ge :: "nat list"
  fitness :: "nat \<Rightarrow> real"

record state =
  agents :: population
  pipes :: "pipe list"
  ground :: base
  score :: int
  draws :: nat
  ticks :: nat

text \<open>\<^verbatim>\<open>list.pop(x)\<close> for an index within range.\<close>

definition list_pop :: "nat \<Rightarrow> 'a list \<Rightarrow> 'a list" where
  "list_pop x xs = take x xs @ drop (Suc x) xs"

text \<open>
  The three statements \<^verbatim>\<open>birds.pop(x); nets.pop(x); ge.pop(x)\<close>, each of which raises
  \<^verbatim>\<open>IndexError\<close> when \<open>x\<close> is out of range.
\<close>

definition pop_agent :: "nat \<Rightarrow> population \<Rightarrow> error + population" where
  "pop_agent x P =
     (if \<not> x < length (birds P) then Inl IndexError
      else if \<not> x < length (nets P) then Inl IndexError
      else if \<not> x < length (ge P) then Inl IndexError
      else Inr (P\<lparr>birds := list_pop x (birds P), nets := list_pop x (nets P),
                  ge := list_pop x (ge P)\<rparr>))"

text \<open>The triple handed to \<^verbatim>\<open>nets[x].activate\<close> for a bird and the lookahead pipe.\<close>

definition observation :: "bird \<Rightarrow> pipe \<Rightarrow> observation" where
  "observation b p =
     (bird_y b, \<bar>bird_y b - real_of_int (pipe_height p)\<bar>,
      \<bar>bird_y b - real_of_int (pipe_bottom p)\<bar>)"

text \<open>
  The choice of \<^verbatim>\<open>pipe_ind\<close> at the top of a tick; \<open>None\<close> is the \<^verbatim>\<open>break\<close> taken when
  no bird is left.
\<close>

definition pipe_index :: "env \<Rightarrow> state \<Rightarrow> nat option" where
  "pipe_index E s =
     (if length (birds (agents s)) > 0
      then (if length (pipes s) > 1
               \<and> bird_x (birds (agents s) ! 0) > pipe_x (pipes s ! 0) + PIPE_WIDTH E
            then Some 1 else Some 0)
      else None)"

text \<open>
  The loop \<^verbatim>\<open>for x, bird in enumerate(birds)\<close> that moves every bird, pays the survival
  reward and asks the controller; \<open>x\<close> is the loop index.
\<close>

function think_loop :: "nat \<Rightarrow> nat \<Rightarrow> pipe list \<Rightarrow> population \<Rightarrow> error + population" where
  "think_loop x pipe_ind ps P =
     (if x < length (birds P) then
        (let bird = bird_move (birds P ! x) in
         if \<not> x < length (ge P) then Inl IndexError
         else let fit = (fitness P)(ge P ! x := fitness P (ge P ! x) + 0.1) in
         if \<not> x < length (nets P) then Inl IndexError
         else if \<not> pipe_ind < length ps then Inl IndexError
         else (case (nets P ! x) (observation bird (ps ! pipe_ind)) of
                 [] \<Rightarrow> Inl IndexError
               | out0 # _ \<Rightarrow>
                   think_loop (x + 1) pipe_ind ps
                     (P\<lparr>birds := (birds P)[x := (if out0 > 0.5 then jump bird else bird)],
                        fitness := fit\<rparr>)))
      else Inr P)"
  by pat_completeness auto
termination
  by (relation "measure (\<lambda>(x, k, ps, P). length (birds P) - x)") auto

text \<open>
  The inner loop \<^verbatim>\<open>for x, bird in enumerate(birds)\<close> of the pipe scan, for one pipe \<open>p\<close>.
  The list iterator keeps an index and reads \<^verbatim>\<open>birds[x]\<close> as long as \<open>x\<close> is below the
  current length, while the body pops from the lists being iterated; the pass check after
  the collision check still uses the bird that was read.
\<close>

function bird_scan :: "env \<Rightarrow> nat \<Rightarrow> pipe \<Rightarrow> bool \<Rightarrow> population \<Rightarrow> error + pipe \<times> bool \<times> population" where
  "bird_scan E x p add_pipe P =
     (if x < length (birds P) then
        (let bird = birds P ! x in
         case (if collide E p bird
               then (if \<not> x < length (ge P) then Inl IndexError
                     else pop_agent x (P\<lparr>fitness := (fitness P)(ge P ! x := fitness P (ge P ! x) - 1)\<rparr>))
               else Inr P) of
           Inl e \<Rightarrow> Inl e
         | Inr P' \<Rightarrow>
             (if \<not> passed p \<and> pipe_x p < bird_x bird
              then bird_scan E (x + 1) (p\<lparr>passed := True\<rparr>) True P'
              else bird_scan E (x + 1) p add_pipe P'))
      else Inr (p, add_pipe, P))"
  by pat_completeness auto
termination
  by (relation "measure (\<lambda>(E, x, p, a, P). length (birds P) - x)")
     (auto simp: pop_agent_def list_pop_def split: if_splits)

text \<open>
  The outer loop \<^verbatim>\<open>for pipe in pipes\<close>. The list of pipes is not changed while it is
  iterated; \<open>j\<close> is the position of the current pipe, and \<open>rem\<close> collects the positions of
  the pipes appended to \<^verbatim>\<open>rem\<close>. The result carries the updated pipes.
\<close>

fun pipe_loop :: "env \<Rightarrow> pipe list \<Rightarrow> nat \<Rightarrow> bool \<Rightarrow> nat list \<Rightarrow> population
                  \<Rightarrow> error + pipe list \<times> bool \<times> nat list \<times> population" where
  "pipe_loop E [] j add_pipe rem P = Inr ([], add_pipe, rem, P)"
| "pipe_loop E (p # ps) j add_pipe rem P =
     (case bird_scan E 0 p add_pipe P of
        Inl e \<Rightarrow> Inl e
      | Inr (p', add', P') \<Rightarrow>
          (let rem' = (if pipe_x p' + PIPE_WIDTH E < 0 then rem @ [j] else rem)
           in case pipe_loop E ps (j + 1) add' rem' P' of
                Inl e \<Rightarrow> Inl e
              | Inr (ps', a, r, P'') \<Rightarrow> Inr (pipe_move p' # ps', a, r, P'')))"

text \<open>\<^verbatim>\<open>for g in ge: g.fitness += 5\<close>\<close>

definition pass_bonus :: "population \<Rightarrow> population" where
  "pass_bonus P = P\<lparr>fitness := foldl (\<lambda>f g. f(g := f g + 5)) (fitness P) (ge P)\<rparr>"

text \<open>
  \<^verbatim>\<open>for r in rem: pipes.remove(r)\<close>: pipes are compared by identity, so the pipes at the
  recorded positions are the ones removed.
\<close>

definition remove_pipes :: "nat list \<Rightarrow> pipe list \<Rightarrow> pipe list" where
  "remove_pipes rem ps = nths ps (- set rem)"

text \<open>The last loop over the birds: those on the floor or above the screen are popped.\<close>

function oob_scan :: "env \<Rightarrow> nat \<Rightarrow> population \<Rightarrow> error + population" where
  "oob_scan E x P =
     (if x < length (birds P) then
        (let bird = birds P ! x in
         if bird_y bird + real_of_int (IMG_HEIGHT E (img bird)) > 730 \<or> bird_y bird < 0
         then (case pop_agent x P of
                 Inl e \<Rightarrow> Inl e
               | Inr P' \<Rightarrow> oob_scan E (x + 1) P')
         else oob_scan E (x + 1) P)
      else Inr P)"
  by pat_completeness auto
termination
  by (relation "measure (\<lambda>(E, x, P). length (birds P) - x)")
     (auto simp: pop_agent_def list_pop_def split: if_splits)

text \<open>
  One pass through the body of the \<^verbatim>\<open>while\<close> loop after the event poll and the choice
  of \<open>pipe_ind\<close>; \<^verbatim>\<open>draw_window\<close> contributes the birds' animation state.
\<close>

definition tick :: "env \<Rightarrow> nat \<Rightarrow> state \<Rightarrow> error + state" where
  "tick E pipe_ind s =
     (case think_loop 0 pipe_ind (pipes s) (agents s) of
        Inl e \<Rightarrow> Inl e
      | Inr P1 \<Rightarrow>
          (case pipe_loop E (pipes s) 0 False [] P1 of
             Inl e \<Rightarrow> Inl e
           | Inr (ps, add_pipe, rem, P2) \<Rightarrow>
               (let (sc, P3, ps3, dr) =
                      (if add_pipe
                       then (score s + 1, pass_bonus P2,
                             ps @ [Pipe E 600 (randrange E (draws s))], draws s + 1)
                       else (score s, P2, ps, draws s));
                    ps4 = remove_pipes rem ps3
                in case oob_scan E 0 P3 of
                     Inl e \<Rightarrow> Inl e
                   | Inr P4 \<Rightarrow>
                       Inr (s\<lparr>agents := P4\<lparr>birds := map bird_draw (birds P4)\<rparr>,
                              pipes := ps4,
                              ground := base_move (BASE_WIDTH E) (ground s),
                              score := sc, draws := dr, ticks := ticks s + 1\<rparr>))))"

text \<open>
  How an episode ends. Either the loop is left by \<^verbatim>\<open>break\<close> and \<^verbatim>\<open>eval_genomes\<close>
  returns to its caller, which then reads the genomes' fitness from the state; or a
  \<^verbatim>\<open>QUIT\<close> event calls \<^verbatim>\<open>pygame.quit()\<close> and \<^verbatim>\<open>quit()\<close>, which raises
  \<^verbatim>\<open>SystemExit\<close> and ends the process without returning (the state is the one the program
  had reached when the exception was raised); or the body of a tick raises an exception.
\<close>

datatype outcome = Returned state | Exited state | Raised error

text \<open>
  The \<^verbatim>\<open>while run\<close> loop, with fuel: \<open>None\<close> when the fuel runs out before the loop ends.
  The events are polled first; the test for an empty population comes next.
\<close>

fun run_loop :: "env \<Rightarrow> nat \<Rightarrow> state \<Rightarrow> outcome option" where
  "run_loop E 0 s = None"
| "run_loop E (Suc n) s =
     (if quit_event E (ticks s) then Some (Exited s)
      else (case pipe_index E s of
              None \<Rightarrow> Some (Returned s)
            | Some pipe_ind \<Rightarrow>
                (case tick E pipe_ind s of
                   Inl e \<Rightarrow> Some (Raised e)
                 | Inr s' \<Rightarrow> run_loop E n s')))"

text \<open>
  The set-up of \<^verbatim>\<open>eval_genomes\<close>: one net and one bird per genome, fitness 0, one pipe.
  The genomes are given by their controllers; genome \<open>i\<close> is referred to by its position.
\<close>

definition initial_state :: "env \<Rightarrow> net list \<Rightarrow> state" where
  "initial_state E controllers =
     \<lparr>agents = \<lparr>birds = map (\<lambda>_. Bird 230 350) controllers, nets = controllers,
                ge = [0..<length controllers], fitness = (\<lambda>_. 0)\<rparr>,
      pipes = [Pipe E 600 (randrange E 0)],
      ground = Base (BASE_WIDTH E) 730,
      score = 0, draws = 1, ticks = 0\<rparr>"

definition eval_genomes :: "env \<Rightarrow> nat \<Rightarrow> net list \<Rightarrow> outcome option" where
  "eval_genomes E fuel controllers = run_loop E fuel (initial_state E controllers)"

section \<open>Test fixtures\<close>

text \<open>
  A concrete environment: sprites of the usual sizes whose masks are full rectangles
  (bird 68 by 48, pipe 104 by 640), every random height 300, no quit request.
\<close>

definition box_overlap :: "nat \<Rightarrow> int \<times> int \<Rightarrow> bool" where
  "box_overlap i off = (fst off < 68 \<and> 0 < fst off + 104 \<and> snd off < 48 \<and> 0 < snd off + 640)"

definition box_env :: env where
  "box_env = \<lparr>PIPE_WIDTH = 104, PIPE_HEIGHT = 640, BASE_WIDTH = 672, IMG_HEIGHT = (\<lambda>_. 48),
              overlap_top = box_overlap, overlap_bottom = box_overlap,
              randrange = (\<lambda>_. 300), quit_event = (\<lambda>_. False)\<rparr>"

text \<open>A controller that never jumps, and one that jumps when its second input exceeds 0.5.\<close>

definition never_jump :: net where "never_jump = (\<lambda>_. [0])"
definition probe_top :: net where "probe_top = (\<lambda>(y, dt, db). [dt])"

text \<open>Two agents inside the top pipe's column, two agents below the floor, one in the gap.\<close>

definition two_hit :: population where
  "two_hit = \<lparr>birds = [Bird 230 100, Bird 230 100], nets = [never_jump, never_jump],
              ge = [0, 1], fitness = (\<lambda>_. 0)\<rparr>"

definition two_low :: population where
  "two_low = \<lparr>birds = [Bird 230 800, Bird 230 800], nets = [never_jump, never_jump],
              ge = [0, 1], fitness = (\<lambda>_. 0)\<rparr>"

definition one_mid :: population where
  "one_mid = \<lparr>birds = [Bird 230 350], nets = [never_jump], ge = [0], fitness = (\<lambda>_. 0)\<rparr>"

text \<open>One agent above and one below the top of the gap; two agents in the gap.\<close>

definition above_below :: population where
  "above_below = \<lparr>birds = [Bird 230 100, Bird 230 500], nets = [probe_top, probe_top],
                  ge = [0, 1], fitness = (\<lambda>_. 0)\<rparr>"

definition two_mid :: population where
  "two_mid = \<lparr>birds = [Bird 230 350, Bird 230 350], nets = [never_jump, never_jump],
              ge = [0, 1], fitness = (\<lambda>_. 0)\<rparr>"

definition hit_state :: state where
  "hit_state = \<lparr>agents = two_hit, pipes = [Pipe box_env 230 300], ground = Base 672 730,
                score = 0, draws = 1, ticks = 0\<rparr>"

text \<open>A state whose only pipe has its left edge just left of the two agents in the gap.\<close>

definition pass_state :: state where
  "pass_state = \<lparr>agents = two_mid, pipes = [Pipe box_env 229 300], ground = Base 672 730,
                 score = 0, draws = 1, ticks = 0\<rparr>"

text \<open>
  The states reached from \<open>hit_state\<close> after one and after two ticks: first agent 0 is
  removed, then agent 1 (in that tick the pipe's left edge is at 225, left of the agents).
\<close>

definition hit_state_1 :: state where
  "hit_state_1 =
     \<lparr>agents = \<lparr>birds = [\<lparr>bird_x = 230, bird_y = 203 / 2, tilt = 25, tick_count = 1,
                           velocity = 0, bird_height = 100, img_count = 1, img = 0\<rparr>],
                nets = [never_jump], ge = [1],
                fitness = (\<lambda>_. 0)(1 := 1 / 10, 0 := - (9 / 10))\<rparr>,
      pipes = [\<lparr>pipe_x = 225, pipe_height = 300, pipe_top = - 340, pipe_bottom = 500,
                passed = False\<rparr>],
      ground = \<lparr>base_y = 730, base_x1 = - 5, base_x2 = 667\<rparr>,
      score = 0, draws = 1, ticks = 1\<rparr>"

definition hit_state_2 :: state where
  "hit_state_2 =
     \<lparr>agents = \<lparr>birds = [], nets = [], ge = [],
                fitness = (\<lambda>_. 0)(0 := - (9 / 10), 1 := - (4 / 5))\<rparr>,
      pipes = [\<lparr>pipe_x = 220, pipe_height = 300, pipe_top = - 340, pipe_bottom = 500,
                passed = True\<rparr>,
               \<lparr>pipe_x = 600, pipe_height = 300, pipe_top = - 340, pipe_bottom = 500,
                passed = False\<rparr>],
      ground = \<lparr>base_y = 730, base_x1 = - 10, base_x2 = 662\<rparr>,
      score = 1, draws = 2, ticks = 2\<rparr>"

section \<open>Invariants used in the proofs\<close>

text \<open>The three parallel lists of the population have one entry per agent.\<close>

definition aligned :: "population \<Rightarrow> bool" where
  "aligned P \<longleftrightarrow> length (nets P) = length (birds P) \<and> length (ge P) = length (birds P)"

text \<open>
  The state after \<open>k\<close> complete passes through the loop body, when each of them gets
  through without an exception and none starts from an empty population.
\<close>

fun after_ticks :: "env \<Rightarrow> nat \<Rightarrow> state \<Rightarrow> state option" where
  "after_ticks E 0 s = Some s"
| "after_ticks E (Suc k) s =
     (case pipe_index E s of
        None \<Rightarrow> None
      | Some pipe_ind \<Rightarrow>
          (case tick E pipe_ind s of
             Inl e \<Rightarrow> None
           | Inr s' \<Rightarrow> after_ticks E k s'))"

text \<open>The two ground tiles are adjacent and the left one starts at or left of the origin.\<close>

definition tiled :: "int \<Rightarrow> base \<Rightarrow> bool" where
  "tiled W g \<longleftrightarrow>
     (base_x2 g = base_x1 g + W \<and> - W \<le> base_x1 g \<and> base_x1 g \<le> 0) \<or>
     (base_x1 g = base_x2 g + W \<and> - W \<le> base_x2 g \<and> base_x2 g \<le> 0)"

section \<open>Unfolding the loops one iteration at a time\<close>

declare think_loop.simps [simp del] bird_scan.simps [simp del] oob_scan.simps [simp del]

lemma bird_scan_done: "\<not> x < length (birds P) \<Longrightarrow> bird_scan E x p a P = Inr (p, a, P)"
  by (subst bird_scan.simps) simp

lemma bird_scan_step:
  "x < length (birds P) \<Longrightarrow>
   bird_scan E x p a P =
     (case (if collide E p (birds P ! x)
            then (if \<not> x < length (ge P) then Inl IndexError
                  else pop_agent x (P\<lparr>fitness := (fitness P)(ge P ! x := fitness P (ge P ! x) - 1)\<rparr>))
            else Inr P) of
        Inl e \<Rightarrow> Inl e
      | Inr P' \<Rightarrow>
          (if \<not> passed p \<and> pipe_x p < bird_x (birds P ! x)
           then bird_scan E (x + 1) (p\<lparr>passed := True\<rparr>) True P'
           else bird_scan E (x + 1) p a P'))"
  by (subst bird_scan.simps) (simp add: Let_def)

lemma oob_scan_done: "\<not> x < length (birds P) \<Longrightarrow> oob_scan E x P = Inr P"
  by (subst oob_scan.simps) simp

lemma oob_scan_step:
  "x < length (birds P) \<Longrightarrow>
   oob_scan E x P =
     (if bird_y (birds P ! x) + real_of_int (IMG_HEIGHT E (img (birds P ! x))) > 730
         \<or> bird_y (birds P ! x) < 0
      then (case pop_agent x P of Inl e \<Rightarrow> Inl e | Inr P' \<Rightarrow> oob_scan E (x + 1) P')
      else oob_scan E (x + 1) P)"
  by (subst oob_scan.simps) (simp add: Let_def)

lemma think_loop_done: "\<not> x < length (birds P) \<Longrightarrow> think_loop x k ps P = Inr P"
  by (subst think_loop.simps) simp

lemma think_loop_step:
  "x < length (birds P) \<Longrightarrow>
   think_loop x k ps P =
     (if \<not> x < length (ge P) then Inl IndexError
      else if \<not> x < length (nets P) then Inl IndexError
      else if \<not> k < length ps then Inl IndexError
      else (case (nets P ! x) (observation (bird_move (birds P ! x)) (ps ! k)) of
              [] \<Rightarrow> Inl IndexError
            | out0 # _ \<Rightarrow>
                think_loop (x + 1) k ps
                  (P\<lparr>birds := (birds P)[x := (if out0 > 0.5 then jump (bird_move (birds P ! x))
                                               else bird_move (birds P ! x))],
                     fitness := (fitness P)(ge P ! x := fitness P (ge P ! x) + 0.1)\<rparr>)))"
  by (subst think_loop.simps) (simp add: Let_def)

lemmas loop_steps =
  bird_scan_done bird_scan_step oob_scan_done oob_scan_step think_loop_done think_loop_step

lemmas fixture_defs =
  box_env_def box_overlap_def never_jump_def probe_top_def two_hit_def two_low_def one_mid_def
  hit_state_def Bird_def Pipe_def Base_def GAP_def VELOCITY_def
  MAX_ROTATION_def ROTATION_VELOCITY_def ANIMATION_TIME_def

lemmas step_defs =
  collide_def py_round_def pop_agent_def list_pop_def observation_def bird_move_def jump_def
  displacement_def pipe_move_def Let_def

section \<open>Agent physics\<close>

lemma displacement_le_16: "displacement v t \<le> 16"
  by (simp add: displacement_def Let_def)

lemma displacement_clamp:
  "displacement v t =
     (let d = min 16 (v * real_of_int t + 1.5 * (real_of_int t)\<^sup>2)
      in if d < 0 then d - 2 else d)"
  by (simp add: displacement_def Let_def min_def)

text \<open>The two adjustments are monotone in the raw displacement.\<close>

lemma adjust_mono:
  fixes a b :: real
  assumes "a \<le> b"
  shows "(let d = min 16 a in if d < 0 then d - 2 else d)
       \<le> (let d = min 16 b in if d < 0 then d - 2 else d)"
  using assms by (simp add: Let_def min_def)

lemma raw_step:
  fixes s :: int
  assumes "4 \<le> s"
  shows "-10.5 * real_of_int s + 1.5 * (real_of_int s)\<^sup>2
       \<le> -10.5 * real_of_int (s + 1) + 1.5 * (real_of_int (s + 1))\<^sup>2"
proof -
  have "4 \<le> real_of_int s" using assms by simp
  then show ?thesis by (simp add: power2_eq_square algebra_simps)
qed

lemma raw_mono:
  fixes s :: int
  assumes "4 \<le> s" "s \<le> t"
  shows "-10.5 * real_of_int s + 1.5 * (real_of_int s)\<^sup>2
       \<le> -10.5 * real_of_int t + 1.5 * (real_of_int t)\<^sup>2"
  using assms(2,1)
proof (induction t rule: int_ge_induct)
  case base
  show ?case by simp
next
  case (step i)
  have "4 \<le> i" using step by simp
  from raw_step [OF this] step show ?case by simp
qed

text \<open>
  C5. The vertical step taken by \<^verbatim>\<open>Bird.move\<close> is the kinematic value
  \<open>velocity * t + 1.5 * t\<^sup>2\<close> at the incremented tick count \<open>t\<close>, clamped above at 16 and,
  when negative, decreased by a further 2; it never exceeds 16; and with the post-jump
  velocity \<open>-10.5\<close> it is monotonically non-decreasing in \<open>t\<close> from \<open>t = 4\<close> on, the first
  tick after the velocity \<open>-10.5 + 3 * t\<close> has crossed zero (hence also from \<open>t = 7\<close> on,
  where the raw displacement itself crosses zero).
\<close>

theorem displacement_formula_bound_mono:
  "bird_y (bird_move b) = bird_y b + displacement (velocity b) (tick_count b + 1)
   \<and> displacement v t =
       (let d = min 16 (v * real_of_int t + 1.5 * (real_of_int t)\<^sup>2)
        in if d < 0 then d - 2 else d)
   \<and> displacement v t \<le> 16
   \<and> (\<forall>s u. 4 \<le> s \<and> s \<le> u \<longrightarrow> displacement (-10.5) s \<le> displacement (-10.5) u)"
proof -
  have "bird_y (bird_move b) = bird_y b + displacement (velocity b) (tick_count b + 1)"
    by (simp add: bird_move_def Let_def)
  moreover have "\<forall>s u. 4 \<le> s \<and> s \<le> u \<longrightarrow> displacement (-10.5) s \<le> displacement (-10.5) u"
  proof (intro allI impI)
    fix s u :: int
    assume "4 \<le> s \<and> s \<le> u"
    then have "-10.5 * real_of_int s + 1.5 * (real_of_int s)\<^sup>2
             \<le> -10.5 * real_of_int u + 1.5 * (real_of_int u)\<^sup>2"
      using raw_mono by blast
    from adjust_mono [OF this] show "displacement (-10.5) s \<le> displacement (-10.5) u"
      by (simp only: displacement_clamp)
  qed
  ultimately show ?thesis
    using displacement_le_16 [of v t] displacement_clamp [of v t] by blast
qed

theorem displacement_formula_bound_mono_witness:
  "displacement (-10.5) 4 = -20 \<and> displacement (-10.5) 8 = 12
   \<and> displacement (-10.5) 4 \<le> displacement (-10.5) 8
   \<and> bird_y (bird_move (jump (Bird 230 350))) = 339"
proof -
  have a: "displacement (-10.5) 4 = -20"
    by (simp add: displacement_def Let_def)
  have b: "displacement (-10.5) 8 = 12"
    by (simp add: displacement_def Let_def)
  have "(4::int) \<le> 4 \<and> (4::int) \<le> 8" by simp
  with displacement_formula_bound_mono [of "jump (Bird 230 350)" 0 0]
  have m: "displacement (-10.5) 4 \<le> displacement (-10.5) 8"
    and y: "bird_y (bird_move (jump (Bird 230 350)))
            = bird_y (jump (Bird 230 350))
              + displacement (velocity (jump (Bird 230 350))) (tick_count (jump (Bird 230 350)) + 1)"
    by blast+
  have "bird_y (bird_move (jump (Bird 230 350))) = 339"
    unfolding y by (simp add: jump_def Bird_def displacement_def Let_def)
  with a b m show ?thesis by simp
qed

text \<open>
  C8. Starting from a fresh bird (tilt 0) that never jumps, ten calls of \<^verbatim>\<open>Bird.move\<close>
  leave the tilt at \<open>-95\<close>, below \<open>-90\<close>: the guard \<^verbatim>\<open>self.tilt > -90\<close> lets the step of 20
  be taken from \<open>-75\<close>.
\<close>

theorem tilt_reaches_minus_95:
  "tilt ((bird_move ^^ 10) (Bird 230 350)) = -95 \<and> tilt ((bird_move ^^ 9) (Bird 230 350)) = -75"
  by (simp add: eval_nat_numeral bird_move_def Bird_def displacement_def Let_def
        MAX_ROTATION_def ROTATION_VELOCITY_def)

section \<open>Scrolling ground\<close>

lemma tiled_Base: "0 \<le> W \<Longrightarrow> tiled W (Base W y)"
  by (simp add: tiled_def Base_def)

lemma tiled_base_move: "5 \<le> W \<Longrightarrow> tiled W g \<Longrightarrow> tiled W (base_move W g)"
  unfolding tiled_def base_move_def VELOCITY_def Let_def
  by (elim disjE conjE) simp_all

lemma tiled_funpow: "5 \<le> W \<Longrightarrow> tiled W ((base_move W ^^ n) (Base W y))"
  by (induction n) (simp_all add: tiled_Base tiled_base_move)

lemma tiled_covered:
  assumes "tiled W g" "WIN_WIDTH \<le> W" "0 \<le> p" "p \<le> real_of_int WIN_WIDTH"
  shows "covered W g p"
proof -
  have W: "p \<le> real_of_int W" using assms(2,4) by linarith
  from assms(1) consider
      (a) "base_x2 g = base_x1 g + W" "- W \<le> base_x1 g" "base_x1 g \<le> 0"
    | (b) "base_x1 g = base_x2 g + W" "- W \<le> base_x2 g" "base_x2 g \<le> 0"
    unfolding tiled_def by blast
  then show ?thesis
  proof cases
    case a
    have lo: "real_of_int (base_x1 g) \<le> p" using a(3) assms(3) by linarith
    have hi: "p \<le> real_of_int (base_x1 g) + 2 * real_of_int W" using a(2) W by linarith
    show ?thesis
    proof (cases "p \<le> real_of_int (base_x1 g) + real_of_int W")
      case True
      with lo show ?thesis by (simp add: covered_def)
    next
      case False
      with hi a(1) show ?thesis by (simp add: covered_def)
    qed
  next
    case b
    have lo: "real_of_int (base_x2 g) \<le> p" using b(3) assms(3) by linarith
    have hi: "p \<le> real_of_int (base_x2 g) + 2 * real_of_int W" using b(2) W by linarith
    show ?thesis
    proof (cases "p \<le> real_of_int (base_x2 g) + real_of_int W")
      case True
      with lo show ?thesis by (simp add: covered_def)
    next
      case False
      with hi b(1) show ?thesis by (simp add: covered_def)
    qed
  qed
qed

text \<open>
  C9. Let the tile width \<open>W\<close> (the width of the ground sprite) be at least the window width.
  After any number of \<^verbatim>\<open>Base.move\<close> steps from the initial offsets 0 and \<open>W\<close>, every point
  \<open>p\<close> of the visible width \<open>[0, WIN_WIDTH]\<close> lies in one of the two tile spans
  \<open>[x1, x1 + W]\<close>, \<open>[x2, x2 + W]\<close>, and the two tiles are adjacent: one starts exactly where
  the other ends, so there is no gap between them across wraparounds.
\<close>

theorem ground_covers_window:
  assumes "WIN_WIDTH \<le> W" and "0 \<le> p" and "p \<le> real_of_int WIN_WIDTH"
  shows "covered W ((base_move W ^^ n) (Base W y)) p
       \<and> (base_x2 ((base_move W ^^ n) (Base W y)) = base_x1 ((base_move W ^^ n) (Base W y)) + W
          \<or> base_x1 ((base_move W ^^ n) (Base W y)) = base_x2 ((base_move W ^^ n) (Base W y)) + W)"
proof -
  have "5 \<le> W" using assms(1) by (simp add: WIN_WIDTH_def)
  then have t: "tiled W ((base_move W ^^ n) (Base W y))" by (rule tiled_funpow)
  from tiled_covered [OF t assms] t show ?thesis by (auto simp: tiled_def)
qed

theorem ground_covers_window_witness:
  "WIN_WIDTH \<le> 672 \<and> covered 672 ((base_move 672 ^^ 135) (Base 672 730)) 250
   \<and> base_move 672 \<lparr>base_y = 730, base_x1 = -670, base_x2 = 2\<rparr>
     = \<lparr>base_y = 730, base_x1 = 669, base_x2 = -3\<rparr>"
proof -
  have h: "WIN_WIDTH \<le> 672" "(0::real) \<le> 250" "250 \<le> real_of_int WIN_WIDTH"
    by (simp_all add: WIN_WIDTH_def)
  from ground_covers_window [OF h, of 135 730]
  have "covered 672 ((base_move 672 ^^ 135) (Base 672 730)) 250" by blast
  moreover have "base_move 672 \<lparr>base_y = 730, base_x1 = -670, base_x2 = 2\<rparr>
     = \<lparr>base_y = 730, base_x1 = 669, base_x2 = -3\<rparr>"
    by (simp add: base_move_def VELOCITY_def Let_def)
  ultimately show ?thesis using h(1) by blast
qed

section \<open>Popping from a list\<close>

lemma length_list_pop: "x < length xs \<Longrightarrow> length (list_pop x xs) = length xs - 1"
  by (simp add: list_pop_def)

lemma set_list_pop_subset: "set (list_pop x xs) \<subseteq> set xs"
  unfolding list_pop_def using set_take_subset [of x xs] set_drop_subset [of "Suc x" xs] by auto

lemma distinct_list_pop: "distinct xs \<Longrightarrow> distinct (list_pop x xs)"
  by (simp add: list_pop_def set_take_disj_set_drop_if_distinct)

lemma nth_notin_list_pop:
  assumes "distinct xs" "x < length xs"
  shows "xs ! x \<notin> set (list_pop x xs)"
proof -
  have "xs = take x xs @ xs ! x # drop (Suc x) xs"
    using assms(2) by (rule id_take_nth_drop)
  then have "distinct (take x xs @ xs ! x # drop (Suc x) xs)"
    using assms(1) by simp
  then show ?thesis by (auto simp: list_pop_def)
qed

lemma subseq_list_pop: "subseq (list_pop x xs) xs"
proof -
  have "subseq (take x xs @ drop (Suc x) xs) (take x xs @ drop x xs)"
  proof (rule list_emb_append_mono)
    show "subseq (take x xs) (take x xs)" by simp
    have "suffix (drop 1 (drop x xs)) (drop x xs)" by (rule suffix_drop)
    then show "subseq (drop (Suc x) xs) (drop x xs)" by (auto simp: suffix_imp_subseq)
  qed
  then show ?thesis by (simp add: list_pop_def)
qed

lemma zip_list_pop:
  "length xs = length ys \<Longrightarrow> zip (list_pop x xs) (list_pop x ys) = list_pop x (zip xs ys)"
  by (simp add: list_pop_def take_zip drop_zip)

section \<open>The pipe scan\<close>

text \<open>
  The collision part of one iteration, for a population whose three lists are aligned:
  it succeeds, keeps the lists aligned, and changes the fitness of no genome that is still
  referenced afterwards.
\<close>

lemma hit_step:
  assumes "aligned P" "x < length (birds P)"
  shows "\<exists>P1. (if collide E p (birds P ! x)
              then (if \<not> x < length (ge P) then Inl IndexError
                    else pop_agent x (P\<lparr>fitness := (fitness P)(ge P ! x := fitness P (ge P ! x) - 1)\<rparr>))
              else Inr P) = Inr P1
          \<and> aligned P1 \<and> set (ge P1) \<subseteq> set (ge P) \<and> length (birds P1) \<le> length (birds P)
          \<and> set (birds P1) \<subseteq> set (birds P)
          \<and> (distinct (ge P) \<longrightarrow> distinct (ge P1) \<and> (\<forall>g\<in>set (ge P1). fitness P1 g = fitness P g))"
proof (cases "collide E p (birds P ! x)")
  case False
  with assms show ?thesis by simp
next
  case True
  have x: "x < length (ge P)" "x < length (nets P)" using assms by (simp_all add: aligned_def)
  show ?thesis
    using True x assms set_list_pop_subset [of x "ge P"] nth_notin_list_pop [of "ge P" x]
      set_list_pop_subset [of x "birds P"]
    by (auto simp: pop_agent_def aligned_def length_list_pop distinct_list_pop)
qed


lemma bird_scan_inv:
  assumes "aligned P"
  shows "\<exists>p' a' P'. bird_scan E x p a P = Inr (p', a', P') \<and> aligned P'
           \<and> set (ge P') \<subseteq> set (ge P)
           \<and> (distinct (ge P) \<longrightarrow>
                distinct (ge P') \<and> (\<forall>g\<in>set (ge P'). fitness P' g = fitness P g))"
  using assms
proof (induction "length (birds P) - x" arbitrary: x p a P rule: less_induct)
  case less
  show ?case
  proof (cases "x < length (birds P)")
    case False
    then show ?thesis using less.prems by (simp add: bird_scan_done)
  next
    case True
    let ?c = "\<not> passed p \<and> pipe_x p < bird_x (birds P ! x)"
    let ?p = "if ?c then p\<lparr>passed := True\<rparr> else p"
    let ?a = "if ?c then True else a"
    from hit_step [OF less.prems True, of E p] obtain P1 where
      h: "(if collide E p (birds P ! x)
              then (if \<not> x < length (ge P) then Inl IndexError
                    else pop_agent x (P\<lparr>fitness := (fitness P)(ge P ! x := fitness P (ge P ! x) - 1)\<rparr>))
              else Inr P) = Inr P1"
      and al: "aligned P1" and sub: "set (ge P1) \<subseteq> set (ge P)"
      and len: "length (birds P1) \<le> length (birds P)"
      and dis: "distinct (ge P) \<longrightarrow> distinct (ge P1) \<and> (\<forall>g\<in>set (ge P1). fitness P1 g = fitness P g)"
      by blast
    have step: "bird_scan E x p a P = bird_scan E (x + 1) ?p ?a P1"
      by (simp only: bird_scan_step [OF True] h sum.case if_distrib [of "\<lambda>q. bird_scan E (x + 1) q _ P1"]) simp
    have "length (birds P1) - (x + 1) < length (birds P) - x" using True len by simp
    from less.hyps [OF this al, of ?p ?a] obtain p' a' P' where
      r: "bird_scan E (x + 1) ?p ?a P1 = Inr (p', a', P')" "aligned P'" "set (ge P') \<subseteq> set (ge P1)"
         "distinct (ge P1) \<longrightarrow> distinct (ge P') \<and> (\<forall>g\<in>set (ge P'). fitness P' g = fitness P1 g)"
      by blast
    have "distinct (ge P) \<longrightarrow> distinct (ge P') \<and> (\<forall>g\<in>set (ge P'). fitness P' g = fitness P g)"
      using r(3,4) dis by auto
    with r(1,2,3) sub show ?thesis unfolding step by blast
  qed
qed


lemma bird_scan_next:
  assumes "x < length (birds P)"
    and "(if collide E p (birds P ! x)
          then (if \<not> x < length (ge P) then Inl IndexError
                else pop_agent x (P\<lparr>fitness := (fitness P)(ge P ! x := fitness P (ge P ! x) - 1)\<rparr>))
          else Inr P) = Inr P1"
  shows "bird_scan E x p a P =
         bird_scan E (x + 1)
           (if \<not> passed p \<and> pipe_x p < bird_x (birds P ! x) then p\<lparr>passed := True\<rparr> else p)
           (if \<not> passed p \<and> pipe_x p < bird_x (birds P ! x) then True else a) P1"
  by (simp only: bird_scan_step [OF assms(1)] assms(2) sum.case) simp

lemma bird_scan_no_pass:
  assumes "aligned P" "passed p \<or> (\<forall>b\<in>set (birds P). \<not> pipe_x p < bird_x b)"
  shows "\<exists>P'. bird_scan E x p a P = Inr (p, a, P')"
  using assms
proof (induction "length (birds P) - x" arbitrary: x P rule: less_induct)
  case less
  show ?case
  proof (cases "x < length (birds P)")
    case False
    then show ?thesis by (simp add: bird_scan_done)
  next
    case True
    from hit_step [OF less.prems(1) True, of E p] obtain P1 where
      h: "(if collide E p (birds P ! x)
              then (if \<not> x < length (ge P) then Inl IndexError
                    else pop_agent x (P\<lparr>fitness := (fitness P)(ge P ! x := fitness P (ge P ! x) - 1)\<rparr>))
              else Inr P) = Inr P1"
      and al: "aligned P1" and len: "length (birds P1) \<le> length (birds P)"
      and bs: "set (birds P1) \<subseteq> set (birds P)"
      by blast
    have nc: "\<not> (\<not> passed p \<and> pipe_x p < bird_x (birds P ! x))"
      using less.prems(2) True by auto
    have step: "bird_scan E x p a P = bird_scan E (x + 1) p a P1"
      using bird_scan_next [OF True h, of a] nc by simp
    have m: "length (birds P1) - (x + 1) < length (birds P) - x" using True len by simp
    have "passed p \<or> (\<forall>b\<in>set (birds P1). \<not> pipe_x p < bird_x b)"
      using less.prems(2) bs by blast
    from less.hyps [OF m al this] show ?thesis unfolding step .
  qed
qed

lemma bird_scan_pass:
  assumes "aligned P" "\<not> passed p" "x \<le> i" "i < length (birds P)"
    and "\<forall>j. x \<le> j \<and> j \<le> i \<longrightarrow> \<not> collide E p (birds P ! j)"
    and "pipe_x p < bird_x (birds P ! i)"
  shows "\<exists>P'. bird_scan E x p a P = Inr (p\<lparr>passed := True\<rparr>, True, P')"
  using assms(3,5)
proof (induction "i - x" arbitrary: x a rule: less_induct)
  case less
  have x: "x < length (birds P)" using less.prems(1) assms(4) by simp
  have "\<not> collide E p (birds P ! x)" using less.prems by simp
  then have h: "(if collide E p (birds P ! x)
          then (if \<not> x < length (ge P) then Inl IndexError
                else pop_agent x (P\<lparr>fitness := (fitness P)(ge P ! x := fitness P (ge P ! x) - 1)\<rparr>))
          else Inr P) = Inr P" by simp
  note step = bird_scan_next [OF x h, of a]
  show ?case
  proof (cases "pipe_x p < bird_x (birds P ! x)")
    case True
    then have "bird_scan E x p a P = bird_scan E (x + 1) (p\<lparr>passed := True\<rparr>) True P"
      using step assms(2) by simp
    moreover have "\<exists>P'. bird_scan E (x + 1) (p\<lparr>passed := True\<rparr>) True P
                       = Inr (p\<lparr>passed := True\<rparr>, True, P')"
      by (rule bird_scan_no_pass [OF assms(1)]) simp
    ultimately show ?thesis by simp
  next
    case False
    then have s: "bird_scan E x p a P = bird_scan E (x + 1) p a P"
      using step by simp
    have "x \<noteq> i" using False assms(6) by auto
    then have lt: "x + 1 \<le> i" "i - (x + 1) < i - x" using less.prems(1) by simp_all
    have "\<forall>j. x + 1 \<le> j \<and> j \<le> i \<longrightarrow> \<not> collide E p (birds P ! j)"
      using less.prems(2) by simp
    from less.hyps [OF lt(2) lt(1) this] show ?thesis unfolding s .
  qed
qed

text \<open>
  C3 as stated fails: with the pipe's left edge at 229 and its right edge at 333, an agent
  at \<open>x = 230\<close> inside the gap (no collision) already sets the flag and the pass event,
  although the right edge has not moved past the agent.
\<close>

theorem pass_on_left_edge:
  "bird_scan box_env 0 (Pipe box_env 229 300) False one_mid
     = Inr ((Pipe box_env 229 300)\<lparr>passed := True\<rparr>, True, one_mid)
   \<and> \<not> collide box_env (Pipe box_env 229 300) (Bird 230 350)
   \<and> \<not> pipe_x (Pipe box_env 229 300) + PIPE_WIDTH box_env < bird_x (Bird 230 350)"
  by (simp add: loop_steps fixture_defs step_defs)

text \<open>
  C3, amended. In the scan of the agents for one obstacle (population lists aligned, so the
  scan returns): an obstacle that is already passed keeps its flag and triggers nothing;
  an obstacle whose left edge \<open>x\<close> is not strictly left of any agent's \<open>x\<close> is left
  unflagged, wherever its right edge is; and an obstacle not yet passed whose left edge is
  strictly left of the \<open>x\<close> of an agent that does not collide with it, no agent before that
  one in the population colliding either, gets its flag set and triggers the pass event.
\<close>

theorem pass_flag_left_edge:
  assumes "aligned P"
  shows "\<exists>p' a' P'. bird_scan E 0 p a P = Inr (p', a', P')
     \<and> (passed p \<longrightarrow> p' = p \<and> a' = a)
     \<and> ((\<forall>b\<in>set (birds P). \<not> pipe_x p < bird_x b) \<longrightarrow> p' = p \<and> a' = a)
     \<and> (\<not> passed p
          \<and> (\<exists>i<length (birds P). (\<forall>j\<le>i. \<not> collide E p (birds P ! j))
                 \<and> pipe_x p < bird_x (birds P ! i))
         \<longrightarrow> p' = p\<lparr>passed := True\<rparr> \<and> a')"
proof -
  from bird_scan_inv [OF assms, of E 0 p a] obtain p' a' P' where
    r: "bird_scan E 0 p a P = Inr (p', a', P')" by blast
  have 1: "passed p \<longrightarrow> p' = p \<and> a' = a"
    using bird_scan_no_pass [OF assms, of p E 0 a] r by auto
  have 2: "(\<forall>b\<in>set (birds P). \<not> pipe_x p < bird_x b) \<longrightarrow> p' = p \<and> a' = a"
    using bird_scan_no_pass [OF assms, of p E 0 a] r by auto
  have 3: "\<not> passed p
          \<and> (\<exists>i<length (birds P). (\<forall>j\<le>i. \<not> collide E p (birds P ! j))
                 \<and> pipe_x p < bird_x (birds P ! i))
         \<longrightarrow> p' = p\<lparr>passed := True\<rparr> \<and> a'"
  proof
    assume h: "\<not> passed p
          \<and> (\<exists>i<length (birds P). (\<forall>j\<le>i. \<not> collide E p (birds P ! j))
                 \<and> pipe_x p < bird_x (birds P ! i))"
    then obtain i where i: "i < length (birds P)" "\<forall>j\<le>i. \<not> collide E p (birds P ! j)"
      "pipe_x p < bird_x (birds P ! i)" by blast
    from h have np: "\<not> passed p" by simp
    have "\<forall>j. 0 \<le> j \<and> j \<le> i \<longrightarrow> \<not> collide E p (birds P ! j)" using i(2) by simp
    from bird_scan_pass [OF assms np _ i(1) this i(3), of a] r
    show "p' = p\<lparr>passed := True\<rparr> \<and> a'" by auto
  qed
  from r 1 2 3 show ?thesis by blast
qed

theorem pass_flag_left_edge_witness:
  "aligned one_mid
   \<and> (\<exists>P'. bird_scan box_env 0 (Pipe box_env 229 300) False one_mid
              = Inr ((Pipe box_env 229 300)\<lparr>passed := True\<rparr>, True, P'))
   \<and> (\<exists>P'. bird_scan box_env 0 (Pipe box_env 600 300) False one_mid
              = Inr (Pipe box_env 600 300, False, P'))
   \<and> (\<exists>P'. bird_scan box_env 0 ((Pipe box_env 100 300)\<lparr>passed := True\<rparr>) False one_mid
              = Inr ((Pipe box_env 100 300)\<lparr>passed := True\<rparr>, False, P'))"
proof -
  have al: "aligned one_mid" by (simp add: aligned_def one_mid_def)
  have c: "\<not> passed (Pipe box_env 229 300)
          \<and> (\<exists>i<length (birds one_mid).
                (\<forall>j\<le>i. \<not> collide box_env (Pipe box_env 229 300) (birds one_mid ! j))
                \<and> pipe_x (Pipe box_env 229 300) < bird_x (birds one_mid ! i))"
    by (simp add: fixture_defs step_defs)
  have n: "\<forall>b\<in>set (birds one_mid). \<not> pipe_x (Pipe box_env 600 300) < bird_x b"
    by (simp add: fixture_defs)
  have p: "passed ((Pipe box_env 100 300)\<lparr>passed := True\<rparr>)" by simp
  from pass_flag_left_edge [OF al, of box_env "Pipe box_env 229 300" False] c
  have 1: "\<exists>P'. bird_scan box_env 0 (Pipe box_env 229 300) False one_mid
              = Inr ((Pipe box_env 229 300)\<lparr>passed := True\<rparr>, True, P')"
    by auto
  from pass_flag_left_edge [OF al, of box_env "Pipe box_env 600 300" False] n
  have 2: "\<exists>P'. bird_scan box_env 0 (Pipe box_env 600 300) False one_mid
              = Inr (Pipe box_env 600 300, False, P')"
    by auto
  from pass_flag_left_edge [OF al, of box_env "(Pipe box_env 100 300)\<lparr>passed := True\<rparr>" False] p
  have 3: "\<exists>P'. bird_scan box_env 0 ((Pipe box_env 100 300)\<lparr>passed := True\<rparr>) False one_mid
              = Inr ((Pipe box_env 100 300)\<lparr>passed := True\<rparr>, False, P')"
    by auto
  from al 1 2 3 show ?thesis by blast
qed

section \<open>The controller loop and the pass bonus\<close>

lemma think_loop_inv:
  assumes "aligned P" "k < length ps" "\<forall>n\<in>set (nets P). \<forall>ob. n ob \<noteq> []"
  shows "\<exists>P'. think_loop x k ps P = Inr P' \<and> ge P' = ge P \<and> nets P' = nets P
           \<and> length (birds P') = length (birds P)
           \<and> (\<forall>i<length (birds P). birds P' ! i =
                 (if x \<le> i
                  then (let b = bird_move (birds P ! i);
                            out = (nets P ! i) (observation b (ps ! k))
                        in if hd out > 0.5 then jump b else b)
                  else birds P ! i))
           \<and> (distinct (ge P) \<longrightarrow>
                (\<forall>g. fitness P' g =
                   (if g \<in> set (drop x (ge P)) then fitness P g + 0.1 else fitness P g)))"
  using assms(1,3)
proof (induction "length (birds P) - x" arbitrary: x P rule: less_induct)
  case less
  show ?case
  proof (cases "x < length (birds P)")
    case False
    then have "length (ge P) \<le> x" using less.prems(1) by (simp add: aligned_def)
    with False show ?thesis by (simp add: think_loop_done)
  next
    case True
    have xs: "x < length (ge P)" "x < length (nets P)"
      using True less.prems(1) by (simp_all add: aligned_def)
    let ?b = "bird_move (birds P ! x)"
    let ?out = "(nets P ! x) (observation ?b (ps ! k))"
    let ?P1 = "P\<lparr>birds := (birds P)[x := (if hd ?out > 0.5 then jump ?b else ?b)],
                fitness := (fitness P)(ge P ! x := fitness P (ge P ! x) + 0.1)\<rparr>"
    have "nets P ! x \<in> set (nets P)" using xs(2) by simp
    then have "?out \<noteq> []" using less.prems(2) by blast
    then obtain o1 os where out: "?out = o1 # os" by (cases ?out) auto
    have step: "think_loop x k ps P = think_loop (x + 1) k ps ?P1"
      using think_loop_step [OF True, of k ps] xs assms(2) out by simp
    have m: "length (birds ?P1) - (x + 1) < length (birds P) - x" using True by simp
    have al: "aligned ?P1" using less.prems(1) by (simp add: aligned_def)
    have ne: "\<forall>n\<in>set (nets ?P1). \<forall>ob. n ob \<noteq> []" using less.prems(2) by simp
    from less.hyps [OF m al ne] obtain P' where
      r: "think_loop (x + 1) k ps ?P1 = Inr P'" "ge P' = ge P" "nets P' = nets P"
         "length (birds P') = length (birds P)"
         "\<forall>i<length (birds P). birds P' ! i =
                 (if x + 1 \<le> i
                  then (let b = bird_move (birds ?P1 ! i);
                            out = (nets P ! i) (observation b (ps ! k))
                        in if hd out > 0.5 then jump b else b)
                  else birds ?P1 ! i)"
         "distinct (ge P) \<longrightarrow>
                (\<forall>g. fitness P' g =
                   (if g \<in> set (drop (x + 1) (ge P)) then fitness ?P1 g + 0.1 else fitness ?P1 g))"
      by auto
    have b: "\<forall>i<length (birds P). birds P' ! i =
                 (if x \<le> i
                  then (let b = bird_move (birds P ! i);
                            out = (nets P ! i) (observation b (ps ! k))
                        in if hd out > 0.5 then jump b else b)
                  else birds P ! i)"
    proof (intro allI impI)
      fix i assume i: "i < length (birds P)"
      show "birds P' ! i =
                 (if x \<le> i
                  then (let b = bird_move (birds P ! i);
                            out = (nets P ! i) (observation b (ps ! k))
                        in if hd out > 0.5 then jump b else b)
                  else birds P ! i)"
      proof (cases "i = x")
        case True
        then show ?thesis using r(5) i by (simp add: Let_def)
      next
        case False
        then show ?thesis using r(5) i by (auto simp: Let_def)
      qed
    qed
    have f: "distinct (ge P) \<longrightarrow>
                (\<forall>g. fitness P' g =
                   (if g \<in> set (drop x (ge P)) then fitness P g + 0.1 else fitness P g))"
    proof (intro impI allI)
      fix g assume d: "distinct (ge P)"
      have dr: "drop x (ge P) = ge P ! x # drop (Suc x) (ge P)"
        using xs(1) by (simp add: Cons_nth_drop_Suc)
      then have "distinct (ge P ! x # drop (Suc x) (ge P))"
        using d distinct_drop [of "ge P" x] by simp
      then have nin: "ge P ! x \<notin> set (drop (Suc x) (ge P))" by simp
      show "fitness P' g =
                   (if g \<in> set (drop x (ge P)) then fitness P g + 0.1 else fitness P g)"
        using r(6) d nin dr by auto
    qed
    from r(1-4) b f show ?thesis unfolding step by blast
  qed
qed

lemma foldl_bonus:
  "distinct gs \<Longrightarrow>
   foldl (\<lambda>f g. f(g := f g + 5)) f gs g = (if g \<in> set gs then f g + (5::real) else f g)"
  by (induction gs arbitrary: f) auto

lemma fitness_pass_bonus:
  "distinct (ge P) \<Longrightarrow>
   fitness (pass_bonus P) g = (if g \<in> set (ge P) then fitness P g + 5 else fitness P g)"
  by (simp add: pass_bonus_def foldl_bonus)

lemma pass_bonus_other [simp]:
  "birds (pass_bonus P) = birds P" "nets (pass_bonus P) = nets P" "ge (pass_bonus P) = ge P"
  by (simp_all add: pass_bonus_def)

lemma aligned_pass_bonus: "aligned (pass_bonus P) = aligned P"
  by (simp add: aligned_def)

lemma think_loop_result:
  assumes "think_loop x k ps P = Inr P'" "aligned P"
  shows "ge P' = ge P \<and> aligned P'
       \<and> (distinct (ge P) \<longrightarrow>
            (\<forall>g. fitness P' g =
               (if g \<in> set (drop x (ge P)) then fitness P g + 0.1 else fitness P g)))"
  using assms
proof (induction "length (birds P) - x" arbitrary: x P rule: less_induct)
  case less
  show ?case
  proof (cases "x < length (birds P)")
    case False
    then have "length (ge P) \<le> x" using less.prems(2) by (simp add: aligned_def)
    with False less.prems show ?thesis by (simp add: think_loop_done)
  next
    case True
    have xs: "x < length (ge P)" "x < length (nets P)"
      using True less.prems(2) by (simp_all add: aligned_def)
    let ?b = "bird_move (birds P ! x)"
    let ?out = "(nets P ! x) (observation ?b (ps ! k))"
    let ?P1 = "P\<lparr>birds := (birds P)[x := (if hd ?out > 0.5 then jump ?b else ?b)],
                fitness := (fitness P)(ge P ! x := fitness P (ge P ! x) + 0.1)\<rparr>"
    have k: "k < length ps"
      using less.prems(1) think_loop_step [OF True, of k ps] xs by (auto split: if_splits)
    have "?out \<noteq> []"
      using less.prems(1) think_loop_step [OF True, of k ps] xs k by auto
    then obtain o1 os where out: "?out = o1 # os" by (cases ?out) auto
    have step: "think_loop x k ps P = think_loop (x + 1) k ps ?P1"
      using think_loop_step [OF True, of k ps] xs k out by simp
    have m: "length (birds ?P1) - (x + 1) < length (birds P) - x" using True by simp
    have al: "aligned ?P1" using less.prems(2) by (simp add: aligned_def)
    have e: "think_loop (x + 1) k ps ?P1 = Inr P'" using less.prems(1) step by simp
    from less.hyps [OF m e al] have
      r: "ge P' = ge P" "aligned P'"
         "distinct (ge P) \<longrightarrow>
                (\<forall>g. fitness P' g =
                   (if g \<in> set (drop (x + 1) (ge P)) then fitness ?P1 g + 0.1 else fitness ?P1 g))"
      by simp_all
    have f: "distinct (ge P) \<longrightarrow>
                (\<forall>g. fitness P' g =
                   (if g \<in> set (drop x (ge P)) then fitness P g + 0.1 else fitness P g))"
    proof (intro impI allI)
      fix g assume d: "distinct (ge P)"
      have dr: "drop x (ge P) = ge P ! x # drop (Suc x) (ge P)"
        using xs(1) by (simp add: Cons_nth_drop_Suc)
      then have "distinct (ge P ! x # drop (Suc x) (ge P))"
        using d distinct_drop [of "ge P" x] by simp
      then have nin: "ge P ! x \<notin> set (drop (Suc x) (ge P))" by simp
      show "fitness P' g =
                   (if g \<in> set (drop x (ge P)) then fitness P g + 0.1 else fitness P g)"
        using r(3) d nin dr by auto
    qed
    from r(1,2) f show ?thesis by blast
  qed
qed

text \<open>
  C2 as stated fails: the second and third components are absolute values. An agent 200
  above the top of the gap and one 200 below it both produce 200, an agent 100 above the
  bottom of the gap and one 100 below it both produce 100; and a controller that jumps when
  its second input exceeds 0.5 jumps for the agent above the gap top as well as for the one
  below it.
\<close>

theorem observation_is_unsigned:
  "fst (snd (observation (Bird 230 100) (Pipe box_env 600 300))) = 200
   \<and> fst (snd (observation (Bird 230 500) (Pipe box_env 600 300))) = 200
   \<and> snd (snd (observation (Bird 230 400) (Pipe box_env 600 300))) = 100
   \<and> snd (snd (observation (Bird 230 600) (Pipe box_env 600 300))) = 100
   \<and> think_loop 0 0 [Pipe box_env 600 300] above_below
     = Inr (above_below\<lparr>birds := [jump (bird_move (Bird 230 100)), jump (bird_move (Bird 230 500))],
                        fitness := (\<lambda>_. 0)(0 := 0.1, 1 := 0.1)\<rparr>)"
  by (simp add: loop_steps fixture_defs step_defs above_below_def)

text \<open>
  C2, amended. In every tick and for every agent of an aligned population (index \<open>i\<close>),
  with \<open>k\<close> the lookahead index of the tick and controllers that return at least one
  output, the loop returns and the agent's new state is decided by its own controller
  applied to the triple of the agent's \<open>y\<close> after this tick's move, the absolute vertical
  distance from that \<open>y\<close> to the lookahead obstacle's gap top (\<^verbatim>\<open>height\<close>), and the
  absolute vertical distance from it to the gap bottom (\<^verbatim>\<open>bottom\<close>): the agent jumps
  exactly when the first output exceeds 0.5.
\<close>

theorem controller_observation:
  assumes "aligned P" and "k < length ps" and "\<forall>n\<in>set (nets P). \<forall>ob. n ob \<noteq> []"
    and "i < length (birds P)"
  shows "\<exists>P'. think_loop 0 k ps P = Inr P'
           \<and> birds P' ! i =
               (let b = bird_move (birds P ! i);
                    out = (nets P ! i) (bird_y b, \<bar>bird_y b - real_of_int (pipe_height (ps ! k))\<bar>,
                                        \<bar>bird_y b - real_of_int (pipe_bottom (ps ! k))\<bar>)
                in if hd out > 0.5 then jump b else b)"
proof -
  from think_loop_inv [OF assms(1-3), of 0] obtain P' where
    r: "think_loop 0 k ps P = Inr P'"
       "\<forall>i<length (birds P). birds P' ! i =
                 (if 0 \<le> i
                  then (let b = bird_move (birds P ! i);
                            out = (nets P ! i) (observation b (ps ! k))
                        in if hd out > 0.5 then jump b else b)
                  else birds P ! i)"
    by blast
  from r(2) assms(4) have "birds P' ! i =
               (let b = bird_move (birds P ! i);
                    out = (nets P ! i) (observation b (ps ! k))
                in if hd out > 0.5 then jump b else b)" by simp
  with r(1) show ?thesis by (simp add: observation_def)
qed

theorem controller_observation_witness:
  "aligned above_below
   \<and> (\<exists>P'. think_loop 0 0 [Pipe box_env 600 300] above_below = Inr P'
           \<and> birds P' ! 1 = jump (bird_move (Bird 230 500)))"
proof -
  have al: "aligned above_below" by (simp add: aligned_def above_below_def)
  have k: "(0::nat) < length [Pipe box_env 600 300]" by simp
  have ne: "\<forall>n\<in>set (nets above_below). \<forall>ob. n ob \<noteq> []"
    by (simp add: above_below_def probe_top_def split: prod.splits)
  have i: "1 < length (birds above_below)" by (simp add: above_below_def)
  have v: "(let b = bird_move (birds above_below ! 1);
                    out = (nets above_below ! 1) (bird_y b, \<bar>bird_y b - real_of_int (pipe_height ([Pipe box_env 600 300] ! 0))\<bar>,
                                        \<bar>bird_y b - real_of_int (pipe_bottom ([Pipe box_env 600 300] ! 0))\<bar>)
                in if hd out > 0.5 then jump b else b) = jump (bird_move (Bird 230 500))"
    by (simp add: fixture_defs step_defs above_below_def)
  from controller_observation [OF al k ne i] v al show ?thesis by auto
qed

lemma pipe_loop_inv:
  assumes "aligned P"
  shows "\<exists>ps' a' r' P'. pipe_loop E ps j a rem P = Inr (ps', a', r', P') \<and> aligned P'
           \<and> length ps' = length ps
           \<and> set (ge P') \<subseteq> set (ge P)
           \<and> (distinct (ge P) \<longrightarrow>
                distinct (ge P') \<and> (\<forall>g\<in>set (ge P'). fitness P' g = fitness P g))
           \<and> (\<forall>i\<in>set r'. i \<in> set rem \<or> (j \<le> i \<and> i < j + length ps))"
  using assms
proof (induction ps arbitrary: j a rem P)
  case Nil
  then show ?case by simp
next
  case (Cons p ps)
  from bird_scan_inv [OF Cons.prems, of E 0 p a] obtain p1 a1 P1 where
    s: "bird_scan E 0 p a P = Inr (p1, a1, P1)" "aligned P1" "set (ge P1) \<subseteq> set (ge P)"
       "distinct (ge P) \<longrightarrow> distinct (ge P1) \<and> (\<forall>g\<in>set (ge P1). fitness P1 g = fitness P g)"
    by blast
  let ?rem = "if pipe_x p1 + PIPE_WIDTH E < 0 then rem @ [j] else rem"
  from Cons.IH [OF s(2), of "j + 1" a1 ?rem] obtain ps' a' r' P' where
    r: "pipe_loop E ps (j + 1) a1 ?rem P1 = Inr (ps', a', r', P')" "aligned P'"
       "length ps' = length ps" "set (ge P') \<subseteq> set (ge P1)"
       "distinct (ge P1) \<longrightarrow> distinct (ge P') \<and> (\<forall>g\<in>set (ge P'). fitness P' g = fitness P1 g)"
       "\<forall>i\<in>set r'. i \<in> set ?rem \<or> (j + 1 \<le> i \<and> i < j + 1 + length ps)"
    by blast
  have e: "pipe_loop E (p # ps) j a rem P = Inr (pipe_move p1 # ps', a', r', P')"
    using s(1) r(1) by (simp add: Let_def)
  have d: "distinct (ge P) \<longrightarrow> distinct (ge P') \<and> (\<forall>g\<in>set (ge P'). fitness P' g = fitness P g)"
    using s(3,4) r(4,5) by auto
  have i: "\<forall>i\<in>set r'. i \<in> set rem \<or> (j \<le> i \<and> i < j + length (p # ps))"
  proof
    fix i assume "i \<in> set r'"
    with r(6) have "i \<in> set ?rem \<or> (j + 1 \<le> i \<and> i < j + 1 + length ps)" by blast
    then show "i \<in> set rem \<or> (j \<le> i \<and> i < j + length (p # ps))"
      by (auto split: if_splits)
  qed
  from e r(2,3) s(3) r(4) d i show ?case by auto
qed

section \<open>The out-of-bounds scan and the pruning of pipes\<close>

lemma pop_agent_aligned:
  assumes "aligned P" "x < length (birds P)"
  shows "\<exists>P1. pop_agent x P = Inr P1 \<and> aligned P1 \<and> fitness P1 = fitness P
           \<and> length (birds P1) < length (birds P)
           \<and> zip (birds P1) (zip (nets P1) (ge P1))
             = list_pop x (zip (birds P) (zip (nets P) (ge P)))"
proof -
  have l: "length (nets P) = length (birds P)" "length (ge P) = length (birds P)"
    using assms(1) by (simp_all add: aligned_def)
  let ?P1 = "P\<lparr>birds := list_pop x (birds P), nets := list_pop x (nets P),
                  ge := list_pop x (ge P)\<rparr>"
  have e: "pop_agent x P = Inr ?P1" using assms(2) l by (simp add: pop_agent_def)
  have a: "aligned ?P1" using assms(2) l by (simp add: aligned_def length_list_pop)
  have n: "length (birds ?P1) < length (birds P)" using assms(2) by (simp add: length_list_pop)
  have z1: "zip (list_pop x (nets P)) (list_pop x (ge P)) = list_pop x (zip (nets P) (ge P))"
    by (rule zip_list_pop) (simp add: l)
  have z2: "zip (list_pop x (birds P)) (list_pop x (zip (nets P) (ge P)))
            = list_pop x (zip (birds P) (zip (nets P) (ge P)))"
    by (rule zip_list_pop) (simp add: l)
  have z: "zip (birds ?P1) (zip (nets ?P1) (ge ?P1))
             = list_pop x (zip (birds P) (zip (nets P) (ge P)))"
    by (simp add: z1 z2)
  from e a n z show ?thesis by simp
qed

lemma remove_pipes_append_new:
  assumes "\<forall>i\<in>set rem. i < length ps"
  shows "remove_pipes rem (ps @ [q]) = remove_pipes rem ps @ [q]"
proof -
  have "length ps \<notin> set rem" using assms by auto
  then show ?thesis by (simp add: remove_pipes_def nths_append)
qed

lemma oob_scan_inv:
  assumes "aligned P"
  shows "\<exists>P'. oob_scan E x P = Inr P' \<and> aligned P' \<and> fitness P' = fitness P
           \<and> subseq (zip (birds P') (zip (nets P') (ge P'))) (zip (birds P) (zip (nets P) (ge P)))"
  using assms
proof (induction "length (birds P) - x" arbitrary: x P rule: less_induct)
  case less
  show ?case
  proof (cases "x < length (birds P)")
    case False
    then show ?thesis using less.prems by (simp add: oob_scan_done)
  next
    case True
    show ?thesis
    proof (cases "bird_y (birds P ! x) + real_of_int (IMG_HEIGHT E (img (birds P ! x))) > 730
                  \<or> bird_y (birds P ! x) < 0")
      case out: True
      from pop_agent_aligned [OF less.prems True] obtain P1 where
        p: "pop_agent x P = Inr P1" "aligned P1" "fitness P1 = fitness P"
           "length (birds P1) < length (birds P)"
           "zip (birds P1) (zip (nets P1) (ge P1)) = list_pop x (zip (birds P) (zip (nets P) (ge P)))"
        by blast
      have step: "oob_scan E x P = oob_scan E (x + 1) P1"
        using oob_scan_step [OF True, of E] out p(1) by simp
      have "length (birds P1) - (x + 1) < length (birds P) - x" using True p(4) by simp
      from less.hyps [OF this p(2)] obtain P' where
        r: "oob_scan E (x + 1) P1 = Inr P'" "aligned P'" "fitness P' = fitness P1"
           "subseq (zip (birds P') (zip (nets P') (ge P'))) (zip (birds P1) (zip (nets P1) (ge P1)))"
        by blast
      have s1: "subseq (zip (birds P1) (zip (nets P1) (ge P1))) (zip (birds P) (zip (nets P) (ge P)))"
        unfolding p(5) by (rule subseq_list_pop)
      have "subseq (zip (birds P') (zip (nets P') (ge P'))) (zip (birds P) (zip (nets P) (ge P)))"
        by (rule subseq_order.order_trans [OF r(4) s1])
      with r(1-3) p(3) show ?thesis unfolding step by simp
    next
      case False
      then have step: "oob_scan E x P = oob_scan E (x + 1) P"
        using oob_scan_step [OF True, of E] by simp
      have "length (birds P) - (x + 1) < length (birds P) - x" using True by simp
      from less.hyps [OF this less.prems] show ?thesis unfolding step .
    qed
  qed
qed

text \<open>
  C10. The out-of-bounds scan of an aligned population returns, and it leaves the fitness
  store exactly as it was: no genome, removed or kept, has its fitness changed. What
  remains of the population is a subsequence of the (agent, controller, genome) triples, so
  an agent leaves together with its controller and its fitness record, and the lists stay
  aligned.
\<close>

theorem oob_removal_keeps_fitness:
  assumes "aligned P"
  shows "\<exists>P'. oob_scan E 0 P = Inr P' \<and> fitness P' = fitness P \<and> aligned P'
           \<and> subseq (zip (birds P') (zip (nets P') (ge P'))) (zip (birds P) (zip (nets P) (ge P)))"
  using oob_scan_inv [OF assms, of E 0] by blast

theorem oob_removal_keeps_fitness_witness:
  "aligned two_low
   \<and> (\<exists>P'. oob_scan box_env 0 two_low = Inr P' \<and> fitness P' = fitness two_low \<and> aligned P'
           \<and> subseq (zip (birds P') (zip (nets P') (ge P')))
                    (zip (birds two_low) (zip (nets two_low) (ge two_low))))"
proof -
  have al: "aligned two_low" by (simp add: aligned_def two_low_def)
  from oob_removal_keeps_fitness [OF al, of box_env] al show ?thesis by blast
qed

section \<open>The pass event\<close>

text \<open>
  C4. Take a tick that starts in a state with aligned lists and distinct genomes, whose
  controller loop returns \<open>P1\<close> and whose pipe loop returns with the pass flag set, the
  pipes \<open>ps\<close>, the positions \<open>rem\<close> to prune and the population \<open>P2\<close>. Then the tick
  returns; the score has grown by exactly 1; the pipes are the pruned \<open>ps\<close> followed by
  exactly one new pipe at \<open>x = 600\<close>; every genome still in the population after the pipe
  loop has its fitness raised by exactly \<open>0.1 + 5\<close> over the tick; and no other genome gets
  the bonus. The flag is a boolean, so the effects happen once however many pairs set it.
\<close>

theorem pass_event_effects:
  assumes al: "aligned (agents s)" and di: "distinct (ge (agents s))"
    and th: "think_loop 0 k (pipes s) (agents s) = Inr P1"
    and pl: "pipe_loop E (pipes s) 0 False [] P1 = Inr (ps, True, rem, P2)"
  shows "\<exists>s'. tick E k s = Inr s' \<and> score s' = score s + 1
           \<and> pipes s' = remove_pipes rem ps @ [Pipe E 600 (randrange E (draws s))]
           \<and> (\<forall>g\<in>set (ge P2). fitness (agents s') g = fitness (agents s) g + 0.1 + 5)
           \<and> (\<forall>g. g \<notin> set (ge P2) \<longrightarrow> fitness (agents s') g = fitness P2 g)"
proof -
  from think_loop_result [OF th al] di have
    t: "ge P1 = ge (agents s)" "aligned P1"
       "\<forall>g. fitness P1 g = (if g \<in> set (ge (agents s)) then fitness (agents s) g + 0.1
                              else fitness (agents s) g)"
    by simp_all
  from pipe_loop_inv [OF t(2), of E "pipes s" 0 False "[]"] pl have
    p: "aligned P2" "length ps = length (pipes s)" "set (ge P2) \<subseteq> set (ge P1)"
       "distinct (ge P1) \<longrightarrow> distinct (ge P2) \<and> (\<forall>g\<in>set (ge P2). fitness P2 g = fitness P1 g)"
       "\<forall>i\<in>set rem. i < length (pipes s)"
    by auto
  have d2: "distinct (ge P2)" and f2: "\<forall>g\<in>set (ge P2). fitness P2 g = fitness P1 g"
    using p(4) t(1) di by simp_all
  have "aligned (pass_bonus P2)" using p(1) by (simp add: aligned_pass_bonus)
  from oob_scan_inv [OF this, of E 0] obtain P4 where
    o: "oob_scan E 0 (pass_bonus P2) = Inr P4" "fitness P4 = fitness (pass_bonus P2)"
    by blast
  let ?s' = "s\<lparr>agents := P4\<lparr>birds := map bird_draw (birds P4)\<rparr>,
               pipes := remove_pipes rem (ps @ [Pipe E 600 (randrange E (draws s))]),
               ground := base_move (BASE_WIDTH E) (ground s),
               score := score s + 1, draws := draws s + 1, ticks := ticks s + 1\<rparr>"
  have e: "tick E k s = Inr ?s'"
    by (simp add: tick_def th pl o(1))
  have r: "remove_pipes rem (ps @ [Pipe E 600 (randrange E (draws s))])
           = remove_pipes rem ps @ [Pipe E 600 (randrange E (draws s))]"
    by (rule remove_pipes_append_new) (simp add: p(2,5))
  have fit: "fitness (agents ?s') = fitness (pass_bonus P2)" by (simp add: o(2))
  have a: "\<forall>g\<in>set (ge P2). fitness (agents ?s') g = fitness (agents s) g + 0.1 + 5"
  proof
    fix g assume g: "g \<in> set (ge P2)"
    then have "g \<in> set (ge (agents s))" using p(3) t(1) by auto
    then have "fitness P1 g = fitness (agents s) g + 0.1" using t(3) by simp
    moreover have "fitness P2 g = fitness P1 g" using f2 g by simp
    moreover have "fitness (pass_bonus P2) g = fitness P2 g + 5"
      using fitness_pass_bonus [OF d2, of g] g by simp
    ultimately show "fitness (agents ?s') g = fitness (agents s) g + 0.1 + 5"
      unfolding fit by simp
  qed
  have b: "\<forall>g. g \<notin> set (ge P2) \<longrightarrow> fitness (agents ?s') g = fitness P2 g"
    unfolding fit using fitness_pass_bonus [OF d2] by simp
  have "score ?s' = score s + 1" by simp
  moreover have "pipes ?s' = remove_pipes rem ps @ [Pipe E 600 (randrange E (draws s))]"
    using r by simp
  ultimately show ?thesis using e a b by blast
qed

theorem pass_event_effects_witness:
  "aligned (agents pass_state) \<and> distinct (ge (agents pass_state))
   \<and> (\<exists>s'. tick box_env 0 pass_state = Inr s' \<and> score s' = 1
          \<and> pipes s' = [(Pipe box_env 224 300)\<lparr>passed := True\<rparr>, Pipe box_env 600 300]
          \<and> fitness (agents s') 0 = 51/10 \<and> fitness (agents s') 1 = 51/10)"
proof -
  let ?P1 = "two_mid\<lparr>birds := [bird_move (Bird 230 350), bird_move (Bird 230 350)],
                     fitness := (\<lambda>_. 0)(0 := 0.1, 1 := 0.1)\<rparr>"
  have al: "aligned (agents pass_state)" by (simp add: aligned_def pass_state_def two_mid_def)
  have di: "distinct (ge (agents pass_state))" by (simp add: pass_state_def two_mid_def)
  have th: "think_loop 0 0 (pipes pass_state) (agents pass_state) = Inr ?P1"
    by (simp add: loop_steps fixture_defs step_defs pass_state_def two_mid_def)
  have pl: "pipe_loop box_env (pipes pass_state) 0 False [] ?P1
            = Inr ([(Pipe box_env 224 300)\<lparr>passed := True\<rparr>], True, [], ?P1)"
    by (simp add: loop_steps fixture_defs step_defs pass_state_def two_mid_def)
  from pass_event_effects [OF al di th pl] obtain s' where
    r: "tick box_env 0 pass_state = Inr s'" "score s' = score pass_state + 1"
       "pipes s' = remove_pipes [] [(Pipe box_env 224 300)\<lparr>passed := True\<rparr>]
                   @ [Pipe box_env 600 (randrange box_env (draws pass_state))]"
       "\<forall>g\<in>set (ge ?P1). fitness (agents s') g = fitness (agents pass_state) g + 0.1 + 5"
    by blast
  have 1: "score s' = 1" using r(2) by (simp add: pass_state_def)
  have 2: "pipes s' = [(Pipe box_env 224 300)\<lparr>passed := True\<rparr>, Pipe box_env 600 300]"
    using r(3) by (simp add: remove_pipes_def box_env_def)
  have 3: "fitness (agents s') 0 = 51/10" "fitness (agents s') 1 = 51/10"
    using r(4) by (simp_all add: pass_state_def two_mid_def)
  from al di r(1) 1 2 3 show ?thesis by blast
qed

section \<open>Removal while iterating\<close>

text \<open>
  C1. With two agents that both overlap the pipe, the collision scan removes the first and
  ends without ever reading the second, which stays in the population unpenalised; with two
  agents that are both below the floor, the out-of-bounds scan likewise removes the first
  and never reads the second. After \<^verbatim>\<open>pop(x)\<close> the next agent has moved to index \<open>x\<close>, and
  the iterator goes on at \<open>x + 1\<close>.
\<close>

theorem scans_skip_after_removal:
  "collide box_env (Pipe box_env 230 300) (Bird 230 100)
   \<and> bird_scan box_env 0 (Pipe box_env 230 300) False two_hit
     = Inr (Pipe box_env 230 300, False,
            \<lparr>birds = [Bird 230 100], nets = [never_jump], ge = [1],
             fitness = (\<lambda>_. 0)(0 := -1)\<rparr>)
   \<and> oob_scan box_env 0 two_low
     = Inr \<lparr>birds = [Bird 230 800], nets = [never_jump], ge = [1], fitness = (\<lambda>_. 0)\<rparr>"
  by (simp add: loop_steps fixture_defs step_defs)

text \<open>
  C6. Two agents overlap the top pipe when the collision scan of the tick runs. The tick
  removes the first (fitness \<open>0.1 - 1\<close>); the second is skipped by the scan, is still in the
  population at the end of the tick with fitness \<open>0.1\<close>, and takes part in the next tick,
  where it is moved again, gets another \<open>0.1\<close> and is only then removed.
\<close>

theorem overlapping_agent_survives:
  "collide box_env (Pipe box_env 230 300) (bird_move (Bird 230 100))
   \<and> (\<exists>s'. tick box_env 0 hit_state = Inr s'
         \<and> ge (agents s') = [1] \<and> length (birds (agents s')) = 1
         \<and> fitness (agents s') 1 = 1/10 \<and> fitness (agents s') 0 = -9/10
         \<and> (\<exists>s''. tick box_env 0 s' = Inr s'' \<and> birds (agents s'') = []
                \<and> fitness (agents s'') 1 = -8/10))"
  by (simp add: tick_def loop_steps fixture_defs step_defs pass_bonus_def remove_pipes_def
        bird_draw_def base_move_def)

section \<open>Fitness of genomes that have left the population\<close>

text \<open>
  Each loop of a tick only touches the fitness of genomes that are referenced by \<open>ge\<close> when
  the loop starts, and never adds a reference.
\<close>

lemma think_loop_frame:
  assumes "think_loop x k ps P = Inr P'"
  shows "ge P' = ge P \<and> (\<forall>g. g \<notin> set (ge P) \<longrightarrow> fitness P' g = fitness P g)"
  using assms
proof (induction "length (birds P) - x" arbitrary: x P rule: less_induct)
  case less
  show ?case
  proof (cases "x < length (birds P)")
    case False
    with less.prems show ?thesis by (simp add: think_loop_done)
  next
    case True
    let ?b = "bird_move (birds P ! x)"
    let ?out = "(nets P ! x) (observation ?b (ps ! k))"
    let ?P1 = "P\<lparr>birds := (birds P)[x := (if hd ?out > 0.5 then jump ?b else ?b)],
                fitness := (fitness P)(ge P ! x := fitness P (ge P ! x) + 0.1)\<rparr>"
    have xs: "x < length (ge P)" "x < length (nets P)" "k < length ps"
      using less.prems think_loop_step [OF True, of k ps] by (auto split: if_splits)
    have "?out \<noteq> []"
      using less.prems think_loop_step [OF True, of k ps] xs by auto
    then obtain o1 os where out: "?out = o1 # os" by (cases ?out) auto
    have step: "think_loop x k ps P = think_loop (x + 1) k ps ?P1"
      using think_loop_step [OF True, of k ps] xs out by simp
    have m: "length (birds ?P1) - (x + 1) < length (birds P) - x" using True by simp
    have e: "think_loop (x + 1) k ps ?P1 = Inr P'" using less.prems step by simp
    from less.hyps [OF m e] have
      r: "ge P' = ge P" "\<forall>g. g \<notin> set (ge P) \<longrightarrow> fitness P' g = fitness ?P1 g"
      by simp_all
    have "ge P ! x \<in> set (ge P)" using xs(1) by simp
    then have "\<forall>g. g \<notin> set (ge P) \<longrightarrow> fitness ?P1 g = fitness P g" by auto
    with r show ?thesis by simp
  qed
qed

lemma hit_frame:
  assumes "(if collide E p (birds P ! x)
            then (if \<not> x < length (ge P) then Inl IndexError
                  else pop_agent x (P\<lparr>fitness := (fitness P)(ge P ! x := fitness P (ge P ! x) - 1)\<rparr>))
            else Inr P) = Inr P1"
    and "x < length (birds P)"
  shows "set (ge P1) \<subseteq> set (ge P) \<and> length (birds P1) \<le> length (birds P)
       \<and> (\<forall>g. g \<notin> set (ge P) \<longrightarrow> fitness P1 g = fitness P g)"
proof (cases "collide E p (birds P ! x)")
  case False
  with assms show ?thesis by simp
next
  case True
  have x: "x < length (ge P)" using assms(1) True by (auto split: if_splits)
  then have in_ge: "ge P ! x \<in> set (ge P)" by simp
  show ?thesis
    using assms True x in_ge set_list_pop_subset [of x "ge P"]
    by (auto simp: pop_agent_def length_list_pop split: if_splits)
qed

lemma frame_trans:
  assumes "C \<subseteq> B" "\<forall>g. g \<notin> B \<longrightarrow> f3 g = f2 g"
    and "B \<subseteq> A" "\<forall>g. g \<notin> A \<longrightarrow> f2 g = f1 g"
  shows "C \<subseteq> A \<and> (\<forall>g. g \<notin> A \<longrightarrow> f3 g = f1 g)"
proof (intro conjI allI impI)
  show "C \<subseteq> A" using assms(1,3) by (rule subset_trans)
next
  fix g assume g: "g \<notin> A"
  then have "g \<notin> B" using assms(3) by auto
  then have "f3 g = f2 g" using assms(2) by simp
  also have "f2 g = f1 g" using assms(4) g by simp
  finally show "f3 g = f1 g" .
qed

lemma bird_scan_frame:
  assumes "bird_scan E x p a P = Inr (p', a', P')"
  shows "set (ge P') \<subseteq> set (ge P) \<and> (\<forall>g. g \<notin> set (ge P) \<longrightarrow> fitness P' g = fitness P g)"
  using assms
proof (induction "length (birds P) - x" arbitrary: x p a P rule: less_induct)
  case less
  show ?case
  proof (cases "x < length (birds P)")
    case False
    with less.prems show ?thesis by (simp add: bird_scan_done)
  next
    case True
    let ?h = "(if collide E p (birds P ! x)
            then (if \<not> x < length (ge P) then Inl IndexError
                  else pop_agent x (P\<lparr>fitness := (fitness P)(ge P ! x := fitness P (ge P ! x) - 1)\<rparr>))
            else Inr P)"
    obtain P1 where h: "?h = Inr P1"
    proof (cases ?h)
      case (Inl e)
      then have "bird_scan E x p a P = Inl e"
        by (simp only: bird_scan_step [OF True] sum.case)
      with less.prems show ?thesis by simp
    next
      case (Inr P1)
      then show ?thesis by (rule that)
    qed
    from hit_frame [OF h True] have
      f: "set (ge P1) \<subseteq> set (ge P)" "length (birds P1) \<le> length (birds P)"
         "\<forall>g. g \<notin> set (ge P) \<longrightarrow> fitness P1 g = fitness P g"
      by blast+
    have m: "length (birds P1) - (x + 1) < length (birds P) - x" using True f(2) by simp
    note nx = bird_scan_next [OF True h, of a]
    have e: "bird_scan E (x + 1)
           (if \<not> passed p \<and> pipe_x p < bird_x (birds P ! x) then p\<lparr>passed := True\<rparr> else p)
           (if \<not> passed p \<and> pipe_x p < bird_x (birds P ! x) then True else a) P1
          = Inr (p', a', P')"
      using less.prems by (simp only: nx)
    from less.hyps [OF m e] have
      r: "set (ge P') \<subseteq> set (ge P1)" "\<forall>g. g \<notin> set (ge P1) \<longrightarrow> fitness P' g = fitness P1 g"
      by blast+
    from frame_trans [OF r(1) r(2) f(1) f(3)] show ?thesis .
  qed
qed


lemma pipe_loop_frame:
  assumes "pipe_loop E ps j a rem P = Inr (ps', a', r', P')"
  shows "set (ge P') \<subseteq> set (ge P) \<and> (\<forall>g. g \<notin> set (ge P) \<longrightarrow> fitness P' g = fitness P g)"
  using assms
proof (induction ps arbitrary: j a rem P ps' a' r' P')
  case Nil
  then show ?case by simp
next
  case (Cons p ps)
  obtain p1 a1 P1 where s: "bird_scan E 0 p a P = Inr (p1, a1, P1)"
  proof (cases "bird_scan E 0 p a P")
    case (Inl e)
    with Cons.prems show ?thesis by simp
  next
    case (Inr t)
    then show ?thesis using that by (cases t) auto
  qed
  let ?rem = "if pipe_x p1 + PIPE_WIDTH E < 0 then rem @ [j] else rem"
  obtain ps1 where r: "pipe_loop E ps (j + 1) a1 ?rem P1 = Inr (ps1, a', r', P')"
  proof (cases "pipe_loop E ps (j + 1) a1 ?rem P1")
    case (Inl e)
    with Cons.prems s show ?thesis by (simp add: Let_def)
  next
    case (Inr t)
    obtain q1 q2 q3 q4 where t: "t = (q1, q2, q3, q4)" by (cases t) auto
    from Cons.prems s Inr t have "q2 = a'" "q3 = r'" "q4 = P'" by (simp_all add: Let_def)
    with Inr t show ?thesis using that by simp
  qed
  note b = bird_scan_frame [OF s]
  note i = Cons.IH [OF r]
  from frame_trans [OF conjunct1 [OF i] conjunct2 [OF i] conjunct1 [OF b] conjunct2 [OF b]]
  show ?case .
qed

lemma foldl_bonus_frame:
  "g \<notin> set gs \<Longrightarrow> foldl (\<lambda>f g. f(g := f g + 5)) f gs g = (f g :: real)"
  by (induction gs arbitrary: f) auto

lemma pass_bonus_frame: "g \<notin> set (ge P) \<Longrightarrow> fitness (pass_bonus P) g = fitness P g"
  by (simp add: pass_bonus_def foldl_bonus_frame)

lemma pop_agent_frame:
  assumes "pop_agent x P = Inr P1"
  shows "set (ge P1) \<subseteq> set (ge P) \<and> fitness P1 = fitness P
       \<and> length (birds P1) < length (birds P)"
proof -
  have x: "x < length (birds P)" "x < length (nets P)" "x < length (ge P)"
    using assms by (simp_all add: pop_agent_def split: if_splits)
  then have e: "P1 = P\<lparr>birds := list_pop x (birds P), nets := list_pop x (nets P),
                  ge := list_pop x (ge P)\<rparr>"
    using assms by (simp add: pop_agent_def)
  show ?thesis
    unfolding e using x(1) set_list_pop_subset [of x "ge P"] by (simp add: length_list_pop)
qed

lemma oob_scan_frame:
  assumes "oob_scan E x P = Inr P'"
  shows "set (ge P') \<subseteq> set (ge P) \<and> fitness P' = fitness P"
  using assms
proof (induction "length (birds P) - x" arbitrary: x P rule: less_induct)
  case less
  show ?case
  proof (cases "x < length (birds P)")
    case False
    with less.prems show ?thesis by (simp add: oob_scan_done)
  next
    case True
    show ?thesis
    proof (cases "bird_y (birds P ! x) + real_of_int (IMG_HEIGHT E (img (birds P ! x))) > 730
                  \<or> bird_y (birds P ! x) < 0")
      case out: True
      have st: "oob_scan E x P =
                (case pop_agent x P of Inl e \<Rightarrow> Inl e | Inr P' \<Rightarrow> oob_scan E (x + 1) P')"
        using out by (simp only: oob_scan_step [OF True] if_True)
      obtain P1 where p: "pop_agent x P = Inr P1"
      proof (cases "pop_agent x P")
        case (Inl e)
        with less.prems st show ?thesis by simp
      next
        case (Inr P1)
        then show ?thesis by (rule that)
      qed
      note f = pop_agent_frame [OF p]
      have e: "oob_scan E (x + 1) P1 = Inr P'"
        using less.prems st p by simp
      have l: "length (birds P1) < length (birds P)" using f by blast
      have "length (birds P1) - (x + 1) < length (birds P) - x" using True l by linarith
      from less.hyps [OF this e] have r: "set (ge P') \<subseteq> set (ge P1)" "fitness P' = fitness P1"
        by simp_all
      have "set (ge P') \<subseteq> set (ge P)" using r(1) f by auto
      moreover have "fitness P' = fitness P" using r(2) f by simp
      ultimately show ?thesis by simp
    next
      case False
      then have st: "oob_scan E x P = oob_scan E (x + 1) P"
        by (simp only: oob_scan_step [OF True] if_False)
      have e: "oob_scan E (x + 1) P = Inr P'" using less.prems by (simp only: st)
      have "length (birds P) - (x + 1) < length (birds P) - x" using True by simp
      from less.hyps [OF this e] show ?thesis .
    qed
  qed
qed


lemma tick_frame:
  assumes "tick E i s = Inr s1"
  shows "set (ge (agents s1)) \<subseteq> set (ge (agents s))
       \<and> (\<forall>g. g \<notin> set (ge (agents s)) \<longrightarrow> fitness (agents s1) g = fitness (agents s) g)"
proof -
  obtain P1 where t: "think_loop 0 i (pipes s) (agents s) = Inr P1"
  proof (cases "think_loop 0 i (pipes s) (agents s)")
    case (Inl e)
    with assms show ?thesis by (simp add: tick_def)
  next
    case (Inr P1)
    then show ?thesis by (rule that)
  qed
  obtain ps ap rem P2 where pl: "pipe_loop E (pipes s) 0 False [] P1 = Inr (ps, ap, rem, P2)"
  proof (cases "pipe_loop E (pipes s) 0 False [] P1")
    case (Inl e)
    with assms t show ?thesis by (simp add: tick_def)
  next
    case (Inr r)
    then show ?thesis using that by (cases r) auto
  qed
  let ?P3 = "if ap then pass_bonus P2 else P2"
  have tk: "tick E i s =
     (case oob_scan E 0 ?P3 of
        Inl e \<Rightarrow> Inl e
      | Inr P4 \<Rightarrow>
          Inr (s\<lparr>agents := P4\<lparr>birds := map bird_draw (birds P4)\<rparr>,
                 pipes := remove_pipes rem
                            (if ap then ps @ [Pipe E 600 (randrange E (draws s))] else ps),
                 ground := base_move (BASE_WIDTH E) (ground s),
                 score := (if ap then score s + 1 else score s),
                 draws := (if ap then draws s + 1 else draws s),
                 ticks := ticks s + 1\<rparr>))"
    by (cases ap) (simp_all add: tick_def t pl split: sum.splits)
  obtain P4 where o: "oob_scan E 0 ?P3 = Inr P4"
  proof (cases "oob_scan E 0 ?P3")
    case (Inl e)
    with assms tk show ?thesis by simp
  next
    case (Inr P4)
    then show ?thesis by (rule that)
  qed
  have a: "agents s1 = P4\<lparr>birds := map bird_draw (birds P4)\<rparr>"
    using assms unfolding tk o by auto
  have g1: "ge (agents s1) = ge P4" and f1: "fitness (agents s1) = fitness P4"
    unfolding a by simp_all
  note f_oob = oob_scan_frame [OF o]
  have f_bonus: "set (ge ?P3) \<subseteq> set (ge P2)
                 \<and> (\<forall>g. g \<notin> set (ge P2) \<longrightarrow> fitness ?P3 g = fitness P2 g)"
    by (simp add: pass_bonus_frame)
  note f_pipe = pipe_loop_frame [OF pl]
  note f_think = think_loop_frame [OF t]
  have f_think': "set (ge P1) \<subseteq> set (ge (agents s))
                  \<and> (\<forall>g. g \<notin> set (ge (agents s)) \<longrightarrow> fitness P1 g = fitness (agents s) g)"
    using f_think by simp
  have f_oob': "set (ge P4) \<subseteq> set (ge ?P3) \<and> (\<forall>g. g \<notin> set (ge ?P3) \<longrightarrow> fitness P4 g = fitness ?P3 g)"
    using f_oob by simp
  note c1 = frame_trans [OF conjunct1 [OF f_oob'] conjunct2 [OF f_oob']
                            conjunct1 [OF f_bonus] conjunct2 [OF f_bonus]]
  note c2 = frame_trans [OF conjunct1 [OF c1] conjunct2 [OF c1]
                            conjunct1 [OF f_pipe] conjunct2 [OF f_pipe]]
  note c3 = frame_trans [OF conjunct1 [OF c2] conjunct2 [OF c2]
                            conjunct1 [OF f_think'] conjunct2 [OF f_think']]
  show ?thesis unfolding g1 f1 by (rule c3)
qed

lemma after_ticks_frame:
  assumes "after_ticks E k s = Some s'"
  shows "set (ge (agents s')) \<subseteq> set (ge (agents s))
       \<and> (\<forall>g. g \<notin> set (ge (agents s)) \<longrightarrow> fitness (agents s') g = fitness (agents s) g)"
  using assms
proof (induction k arbitrary: s)
  case 0
  then show ?case by simp
next
  case (Suc k)
  obtain i where i: "pipe_index E s = Some i"
    using Suc.prems by (cases "pipe_index E s") simp_all
  obtain s1 where t: "tick E i s = Inr s1"
    using Suc.prems i by (cases "tick E i s") simp_all
  have r: "after_ticks E k s1 = Some s'" using Suc.prems i t by simp
  note a = Suc.IH [OF r]
  note b = tick_frame [OF t]
  from frame_trans [OF conjunct1 [OF a] conjunct2 [OF a] conjunct1 [OF b] conjunct2 [OF b]]
  show ?case .
qed

lemma after_ticks_Suc:
  "pipe_index E s = Some i \<Longrightarrow> tick E i s = Inr s1 \<Longrightarrow>
   after_ticks E (Suc k) s = after_ticks E k s1"
  by simp

lemma run_loop_exited:
  assumes "run_loop E m s = Some (Exited s')"
  shows "quit_event E (ticks s') \<and> (\<exists>k<m. after_ticks E k s = Some s')"
  using assms
proof (induction m arbitrary: s)
  case 0
  then show ?case by simp
next
  case (Suc m)
  show ?case
  proof (cases "quit_event E (ticks s)")
    case True
    with Suc.prems have "s' = s" by simp
    with True show ?thesis by auto
  next
    case False
    obtain i where i: "pipe_index E s = Some i"
      using Suc.prems False by (cases "pipe_index E s") simp_all
    obtain s1 where t: "tick E i s = Inr s1"
      using Suc.prems False i by (cases "tick E i s") simp_all
    have "run_loop E m s1 = Some (Exited s')" using Suc.prems False i t by simp
    from Suc.IH [OF this] obtain k where
      k: "quit_event E (ticks s')" "k < m" "after_ticks E k s1 = Some s'" by blast
    have "after_ticks E (Suc k) s = Some s'" using k(3) after_ticks_Suc [OF i t] by simp
    moreover have "Suc k < Suc m" using k(2) by simp
    ultimately show ?thesis using k(1) by blast
  qed
qed

lemma run_loop_returned:
  assumes "run_loop E m s = Some (Returned s')"
  shows "\<not> quit_event E (ticks s') \<and> birds (agents s') = []
       \<and> (\<exists>k<m. after_ticks E k s = Some s')"
  using assms
proof (induction m arbitrary: s)
  case 0
  then show ?case by simp
next
  case (Suc m)
  have nq: "\<not> quit_event E (ticks s)" using Suc.prems by (auto split: if_splits)
  show ?case
  proof (cases "pipe_index E s")
    case None
    with Suc.prems nq have e: "s' = s" by simp
    from None have "birds (agents s) = []" by (simp add: pipe_index_def split: if_splits)
    with e nq show ?thesis by auto
  next
    case (Some i)
    obtain s1 where t: "tick E i s = Inr s1"
      using Suc.prems nq Some by (cases "tick E i s") simp_all
    have "run_loop E m s1 = Some (Returned s')" using Suc.prems nq Some t by simp
    from Suc.IH [OF this] obtain k where
      k: "\<not> quit_event E (ticks s')" "birds (agents s') = []" "k < m"
         "after_ticks E k s1 = Some s'" by blast
    have "after_ticks E (Suc k) s = Some s'" using k(4) after_ticks_Suc [OF Some t] by simp
    moreover have "Suc k < Suc m" using k(3) by simp
    ultimately show ?thesis using k(1,2) by blast
  qed
qed


lemma tick_hit_state:
  "tick (box_env\<lparr>quit_event := q\<rparr>) 0 hit_state = Inr hit_state_1"
  by (simp add: tick_def loop_steps fixture_defs step_defs pass_bonus_def remove_pipes_def
        bird_draw_def base_move_def)
     (simp add: hit_state_1_def never_jump_def)

lemma tick_hit_state_1:
  "tick (box_env\<lparr>quit_event := q\<rparr>) 0 hit_state_1 = Inr hit_state_2"
  by (simp add: hit_state_1_def tick_def loop_steps fixture_defs step_defs pass_bonus_def
        remove_pipes_def bird_draw_def base_move_def)
     (simp add: hit_state_2_def nths_all)

section \<open>Episode end\<close>

text \<open>
  C7 as stated fails: when a quit request is seen at the top of the first tick, the episode
  does not return. \<^verbatim>\<open>quit()\<close> raises \<^verbatim>\<open>SystemExit\<close> and the process ends, so the caller
  is handed nothing.
\<close>

theorem quit_returns_nothing:
  "eval_genomes (box_env\<lparr>quit_event := (\<lambda>k. k = 0)\<rparr>) 5 [never_jump]
   = Some (Exited (initial_state (box_env\<lparr>quit_event := (\<lambda>k. k = 0)\<rparr>) [never_jump]))"
  by (simp add: eval_genomes_def initial_state_def eval_nat_numeral)

text \<open>
  C7, amended. At the top of a tick, a quit request ends the process by \<^verbatim>\<open>SystemExit\<close> in
  exactly the state the tick started from, and an empty population (with no quit request)
  makes the episode return in exactly that state: neither way has the tick had any effect.
  Over a whole run, the state at exit or at return is the state after some number of
  complete ticks, a quit request was pending in it in the first case, and the population
  was empty in the second; only then is the fitness store handed back. Finally the
  fitness of a genome that has left the population is final: no later tick changes it, and
  the genome never comes back, so the store at the end still holds it.
\<close>

theorem episode_end:
  "(quit_event E (ticks s) \<longrightarrow> run_loop E (Suc n) s = Some (Exited s))
   \<and> (\<not> quit_event E (ticks s) \<and> birds (agents s) = [] \<longrightarrow>
        run_loop E (Suc n) s = Some (Returned s))
   \<and> (run_loop E m s0 = Some (Exited s') \<longrightarrow>
        quit_event E (ticks s') \<and> (\<exists>k<m. after_ticks E k s0 = Some s'))
   \<and> (run_loop E m s0 = Some (Returned s') \<longrightarrow>
        \<not> quit_event E (ticks s') \<and> birds (agents s') = []
        \<and> (\<exists>k<m. after_ticks E k s0 = Some s'))
   \<and> (after_ticks E j s1 = Some s2 \<and> g \<notin> set (ge (agents s1)) \<longrightarrow>
        fitness (agents s2) g = fitness (agents s1) g \<and> g \<notin> set (ge (agents s2)))"
proof -
  have a: "quit_event E (ticks s) \<longrightarrow> run_loop E (Suc n) s = Some (Exited s)"
    by simp
  have b: "\<not> quit_event E (ticks s) \<and> birds (agents s) = [] \<longrightarrow>
        run_loop E (Suc n) s = Some (Returned s)"
    by (simp add: pipe_index_def)
  have c: "run_loop E m s0 = Some (Exited s') \<longrightarrow>
        quit_event E (ticks s') \<and> (\<exists>k<m. after_ticks E k s0 = Some s')"
    using run_loop_exited by blast
  have d: "run_loop E m s0 = Some (Returned s') \<longrightarrow>
        \<not> quit_event E (ticks s') \<and> birds (agents s') = []
        \<and> (\<exists>k<m. after_ticks E k s0 = Some s')"
    using run_loop_returned by blast
  have e: "after_ticks E j s1 = Some s2 \<and> g \<notin> set (ge (agents s1)) \<longrightarrow>
        fitness (agents s2) g = fitness (agents s1) g \<and> g \<notin> set (ge (agents s2))"
  proof
    assume h: "after_ticks E j s1 = Some s2 \<and> g \<notin> set (ge (agents s1))"
    note f = after_ticks_frame [OF conjunct1 [OF h]]
    have "fitness (agents s2) g = fitness (agents s1) g" using f h by simp
    moreover have "g \<notin> set (ge (agents s2))" using f h by auto
    ultimately show "fitness (agents s2) g = fitness (agents s1) g \<and> g \<notin> set (ge (agents s2))"
      by simp
  qed
  from a b c d e show ?thesis by (intro conjI)
qed

theorem episode_end_witness:
  "run_loop (box_env\<lparr>quit_event := (\<lambda>k. k = 1)\<rparr>) 2 hit_state = Some (Exited hit_state_1)
   \<and> fitness (agents hit_state_1) 0 = - (9 / 10) \<and> fitness (agents hit_state_1) 1 = 1 / 10
   \<and> run_loop box_env 3 hit_state = Some (Returned hit_state_2)
   \<and> fitness (agents hit_state_2) 0 = - (9 / 10) \<and> fitness (agents hit_state_2) 1 = - (4 / 5)
   \<and> (\<exists>k<3. after_ticks box_env k hit_state = Some hit_state_2)
   \<and> after_ticks box_env 1 hit_state_1 = Some hit_state_2
   \<and> 0 \<notin> set (ge (agents hit_state_1))
   \<and> fitness (agents hit_state_2) 0 = fitness (agents hit_state_1) 0"
proof -
  let ?Q = "box_env\<lparr>quit_event := (\<lambda>k. k = 1)\<rparr>"
  have be: "box_env\<lparr>quit_event := (\<lambda>_. False)\<rparr> = box_env" by (simp add: box_env_def)
  have t1: "tick box_env 0 hit_state = Inr hit_state_1"
    using tick_hit_state [of "\<lambda>_. False"] by (simp only: be)
  have t2: "tick box_env 0 hit_state_1 = Inr hit_state_2"
    using tick_hit_state_1 [of "\<lambda>_. False"] by (simp only: be)
  have i0: "pipe_index E hit_state = Some 0" for E
    by (simp add: pipe_index_def hit_state_def two_hit_def)
  have i1: "pipe_index E hit_state_1 = Some 0" for E
    by (simp add: pipe_index_def hit_state_1_def)
  have q0: "\<not> quit_event ?Q (ticks hit_state)" by (simp add: hit_state_def)
  have q1: "quit_event ?Q (ticks hit_state_1)" by (simp add: hit_state_1_def)
  have n0: "\<not> quit_event box_env (ticks hit_state)" by (simp add: box_env_def)
  have n1: "\<not> quit_event box_env (ticks hit_state_1)" by (simp add: box_env_def)
  have n2: "\<not> quit_event box_env (ticks hit_state_2) \<and> birds (agents hit_state_2) = []"
    by (simp add: box_env_def hit_state_2_def)
  from episode_end [of ?Q hit_state_1 0] q1
  have x1: "run_loop ?Q (Suc 0) hit_state_1 = Some (Exited hit_state_1)" by blast
  have x: "run_loop ?Q 2 hit_state = Some (Exited hit_state_1)"
    using x1 q0 i0 [of ?Q] tick_hit_state [of "\<lambda>k. k = 1"]
    by (simp add: eval_nat_numeral)
  from episode_end [of box_env hit_state_2 0] n2
  have r1: "run_loop box_env (Suc 0) hit_state_2 = Some (Returned hit_state_2)" by blast
  have r: "run_loop box_env 3 hit_state = Some (Returned hit_state_2)"
    using r1 n0 n1 i0 [of box_env] i1 [of box_env] t1 t2
    by (simp add: eval_nat_numeral)
  from episode_end [of box_env _ _ 3 hit_state hit_state_2] r
  have k: "\<exists>k<3. after_ticks box_env k hit_state = Some hit_state_2" by blast
  have a: "after_ticks box_env 1 hit_state_1 = Some hit_state_2"
    using i1 [of box_env] t2 by simp
  have g: "0 \<notin> set (ge (agents hit_state_1))" by (simp add: hit_state_1_def)
  from episode_end [of box_env _ _ _ _ _ 1 hit_state_1 hit_state_2 0] a g
  have f: "fitness (agents hit_state_2) 0 = fitness (agents hit_state_1) 0" by blast
  have v: "fitness (agents hit_state_1) 0 = - (9 / 10)" "fitness (agents hit_state_1) 1 = 1 / 10"
    "fitness (agents hit_state_2) 0 = - (9 / 10)" "fitness (agents hit_state_2) 1 = - (4 / 5)"
    by (simp_all add: hit_state_1_def hit_state_2_def)
  from x r k a g f v show ?thesis by (intro conjI)
qed

end
